theory Spec2Isabelle
  imports Complex_Main
begin

section \<open>The JavaScript values that \<open>bin/prep.js\<close> computes with\<close>

subsection \<open>Numbers\<close>

text \<open>
  A JavaScript Number is an IEEE 754 binary64 value.  A finite one is kept as its sign
  (\<open>True\<close> is negative) and its exact magnitude, so that \<open>-0\<close> is \<open>Finite True 0\<close>.
  Every arithmetic operation computes the exact rational result and rounds it to the
  nearest binary64 value, ties to even, as the language requires.
\<close>

datatype jsnum = NaN | Infinity bool | Finite bool rat

definition pow2 :: "int \<Rightarrow> rat" where
  "pow2 e = (if 0 \<le> e then 2 ^ nat e else 1 / 2 ^ nat (- e))"

definition pow10 :: "int \<Rightarrow> rat" where
  "pow10 e = (if 0 \<le> e then 10 ^ nat e else 1 / 10 ^ nat (- e))"

fun bit_length :: "nat \<Rightarrow> nat" where
  "bit_length n = (if n = 0 then 0 else Suc (bit_length (n div 2)))"

fun dec_length :: "nat \<Rightarrow> nat" where
  "dec_length n = (if n = 0 then 0 else Suc (dec_length (n div 10)))"

definition ilog2 :: "rat \<Rightarrow> int" where
  \<comment> \<open>for \<open>0 < r\<close>, the integer \<open>e\<close> with \<open>2 ^ e \<le> r < 2 ^ (e + 1)\<close>\<close>
  "ilog2 r = (if 1 \<le> r then int (bit_length (nat \<lfloor>r\<rfloor>)) - 1
              else - int (bit_length (nat (\<lceil>1 / r\<rceil> - 1))))"

definition ilog10 :: "rat \<Rightarrow> int" where
  \<comment> \<open>for \<open>0 < r\<close>, the integer \<open>e\<close> with \<open>10 ^ e \<le> r < 10 ^ (e + 1)\<close>\<close>
  "ilog10 r = (if 1 \<le> r then int (dec_length (nat \<lfloor>r\<rfloor>)) - 1
               else - int (dec_length (nat (\<lceil>1 / r\<rceil> - 1))))"

definition round_half_even :: "rat \<Rightarrow> int" where
  "round_half_even q =
     (let f = \<lfloor>q\<rfloor>; d = q - of_int f
      in if d < 1 / 2 then f else if 1 / 2 < d then f + 1
         else if even f then f else f + 1)"

definition round_mag :: "rat \<Rightarrow> rat" where
  \<comment> \<open>53 significant bits; the least exponent of a binary64 unit in the last place is \<open>-1074\<close>\<close>
  "round_mag r =
     (if r = 0 then 0
      else let e = max (ilog2 r - 52) (- 1074)
           in of_int (round_half_even (r / pow2 e)) * pow2 e)"

definition fround :: "bool \<Rightarrow> rat \<Rightarrow> jsnum" where
  \<comment> \<open>the binary64 value of sign \<open>s\<close> nearest to the magnitude \<open>r\<close>\<close>
  "fround s r = (let m = round_mag r in if 2 ^ 1024 \<le> m then Infinity s else Finite s m)"

definition sval :: "bool \<Rightarrow> rat \<Rightarrow> rat" where
  "sval s m = (if s then - m else m)"

fun jsneg :: "jsnum \<Rightarrow> jsnum" where
  "jsneg NaN = NaN"
| "jsneg (Infinity s) = Infinity (\<not> s)"
| "jsneg (Finite s m) = Finite (\<not> s) m"

fun jsadd :: "jsnum \<Rightarrow> jsnum \<Rightarrow> jsnum" where
  "jsadd NaN y = NaN"
| "jsadd x NaN = NaN"
| "jsadd (Infinity s) (Infinity t) = (if s = t then Infinity s else NaN)"
| "jsadd (Infinity s) (Finite t n) = Infinity s"
| "jsadd (Finite s m) (Infinity t) = Infinity t"
| "jsadd (Finite s m) (Finite t n) =
     (let r = sval s m + sval t n
      in if r = 0 then Finite (s \<and> t) 0 else fround (r < 0) \<bar>r\<bar>)"

definition jssub :: "jsnum \<Rightarrow> jsnum \<Rightarrow> jsnum" where
  "jssub x y = jsadd x (jsneg y)"

fun jsmul :: "jsnum \<Rightarrow> jsnum \<Rightarrow> jsnum" where
  "jsmul NaN y = NaN"
| "jsmul x NaN = NaN"
| "jsmul (Infinity s) (Infinity t) = Infinity (s \<noteq> t)"
| "jsmul (Infinity s) (Finite t n) = (if n = 0 then NaN else Infinity (s \<noteq> t))"
| "jsmul (Finite s m) (Infinity t) = (if m = 0 then NaN else Infinity (s \<noteq> t))"
| "jsmul (Finite s m) (Finite t n) = fround (s \<noteq> t) (m * n)"

fun jsdiv :: "jsnum \<Rightarrow> jsnum \<Rightarrow> jsnum" where
  "jsdiv NaN y = NaN"
| "jsdiv x NaN = NaN"
| "jsdiv (Infinity s) (Infinity t) = NaN"
| "jsdiv (Infinity s) (Finite t n) = Infinity (s \<noteq> t)"
| "jsdiv (Finite s m) (Infinity t) = Finite (s \<noteq> t) 0"
| "jsdiv (Finite s m) (Finite t n) =
     (if n = 0 then (if m = 0 then NaN else Infinity (s \<noteq> t))
      else fround (s \<noteq> t) (m / n))"

fun jslt :: "jsnum \<Rightarrow> jsnum \<Rightarrow> bool" where
  \<comment> \<open>the relational operator \<open><\<close> on Numbers; false when an operand is \<open>NaN\<close>\<close>
  "jslt NaN y = False"
| "jslt x NaN = False"
| "jslt (Infinity s) (Infinity t) = (s \<and> \<not> t)"
| "jslt (Infinity s) (Finite t n) = s"
| "jslt (Finite s m) (Infinity t) = (\<not> t)"
| "jslt (Finite s m) (Finite t n) = (sval s m < sval t n)"

definition num_of_nat :: "nat \<Rightarrow> jsnum" where
  "num_of_nat n = Finite False (of_nat n)"

definition num_of_int :: "int \<Rightarrow> jsnum" where
  "num_of_int i = Finite (i < 0) (of_int \<bar>i\<bar>)"

fun is_finite :: "jsnum \<Rightarrow> bool" where
  "is_finite (Finite s m) = True"
| "is_finite x = False"

subsection \<open>Strings and the conversions between strings and numbers\<close>

text \<open>
  A string is a list of code units; the model covers code units below 256.
  \<open>is_space\<close> is the white space and line terminator set that \<open>trim\<close>, \<open>Number\<close>
  and \<open>parseFloat\<close> strip: TAB, LF, VT, FF, CR, SP and NBSP in this range.
\<close>

definition is_space :: "char \<Rightarrow> bool" where
  "is_space c = (of_char c \<in> {9, 10, 11, 12, 13, 32, 160 :: nat})"

definition trim :: "string \<Rightarrow> string" where
  "trim s = rev (dropWhile is_space (rev (dropWhile is_space s)))"

fun split_on :: "char \<Rightarrow> string \<Rightarrow> string \<Rightarrow> string list" where
  \<comment> \<open>\<open>s.split(c)\<close> for a one-character separator; the second argument collects the
      current piece, reversed\<close>
  "split_on c acc [] = [rev acc]"
| "split_on c acc (x # xs) =
     (if x = c then rev acc # split_on c [] xs else split_on c (x # acc) xs)"

definition split_commas :: "string \<Rightarrow> string list" where
  "split_commas s = split_on (CHR '','') [] s"

definition strip_commas :: "string \<Rightarrow> string" where
  \<comment> \<open>\<open>s.replace(/,/g, '')\<close>\<close>
  "strip_commas s = filter (\<lambda>c. c \<noteq> CHR '','') s"

definition radix_digit :: "nat \<Rightarrow> char \<Rightarrow> nat option" where
  "radix_digit b c =
     (let n = of_char c :: nat;
          v = (if 48 \<le> n \<and> n \<le> 57 then Some (n - 48)
               else if 97 \<le> n \<and> n \<le> 102 then Some (n - 87)
               else if 65 \<le> n \<and> n \<le> 70 then Some (n - 55)
               else None)
      in case v of None \<Rightarrow> None | Some d \<Rightarrow> if d < b then Some d else None)"

definition is_digit :: "char \<Rightarrow> bool" where
  "is_digit c = (radix_digit 10 c \<noteq> None)"

definition digits_val :: "nat \<Rightarrow> string \<Rightarrow> nat" where
  "digits_val b ds =
     foldl (\<lambda>a c. b * a + (case radix_digit b c of None \<Rightarrow> 0 | Some d \<Rightarrow> d)) 0 ds"

definition scan_exponent :: "string \<Rightarrow> int \<times> string" where
  \<comment> \<open>the longest ExponentPart at the head of the string, and the rest\<close>
  "scan_exponent s =
     (case s of
        [] \<Rightarrow> (0, s)
      | c # t \<Rightarrow>
          if c = CHR ''e'' \<or> c = CHR ''E'' then
            (let neg = (case t of [] \<Rightarrow> False | g # _ \<Rightarrow> g = CHR ''-'');
                 u = (case t of [] \<Rightarrow> t
                      | g # u' \<Rightarrow> if g = CHR ''+'' \<or> g = CHR ''-'' then u' else t);
                 ds = takeWhile is_digit u
             in if ds = [] then (0, s)
                else ((if neg then - int (digits_val 10 ds) else int (digits_val 10 ds)),
                      dropWhile is_digit u))
          else (0, s))"

definition scan_unsigned :: "string \<Rightarrow> (rat \<times> string) option" where
  \<comment> \<open>the exact value of the longest prefix that is a StrUnsignedDecimalLiteral other
      than \<open>Infinity\<close>, and the rest\<close>
  "scan_unsigned s =
     (let ip = takeWhile is_digit s; r1 = dropWhile is_digit s
      in case r1 of
           [] \<Rightarrow> if ip = [] then None else Some (of_nat (digits_val 10 ip), [])
         | c # r2 \<Rightarrow>
             if c = CHR ''.'' then
               (let fp = takeWhile is_digit r2; r3 = dropWhile is_digit r2
                in if ip = [] \<and> fp = [] then None
                   else (case scan_exponent r3 of (e, r4) \<Rightarrow>
                     Some ((of_nat (digits_val 10 ip)
                            + of_nat (digits_val 10 fp) / 10 ^ length fp) * pow10 e, r4)))
             else if ip = [] then None
             else (case scan_exponent r1 of (e, r4) \<Rightarrow>
                     Some (of_nat (digits_val 10 ip) * pow10 e, r4)))"

definition scan_decimal :: "string \<Rightarrow> (jsnum \<times> string) option" where
  \<comment> \<open>the longest prefix that is a StrDecimalLiteral, as a Number, and the rest\<close>
  "scan_decimal s =
     (let neg = (case s of [] \<Rightarrow> False | g # _ \<Rightarrow> g = CHR ''-'');
          t = (case s of [] \<Rightarrow> s
               | g # t' \<Rightarrow> if g = CHR ''+'' \<or> g = CHR ''-'' then t' else s)
      in if take 8 t = ''Infinity'' then Some (Infinity neg, drop 8 t)
         else (case scan_unsigned t of
                 None \<Rightarrow> None
               | Some (v, rest) \<Rightarrow> Some (fround neg v, rest)))"

definition parseFloat :: "string \<Rightarrow> jsnum" where
  \<comment> \<open>\<open>Number.parseFloat\<close> on a string\<close>
  "parseFloat s =
     (case scan_decimal (dropWhile is_space s) of None \<Rightarrow> NaN | Some (v, _) \<Rightarrow> v)"

definition scan_radix :: "string \<Rightarrow> jsnum option" where
  \<comment> \<open>a whole string that is a NonDecimalIntegerLiteral: \<open>0x\<close>, \<open>0o\<close> or \<open>0b\<close> and digits\<close>
  "scan_radix s =
     (case s of
        z # p # ds \<Rightarrow>
          (let b = (if p = CHR ''x'' \<or> p = CHR ''X'' then 16
                    else if p = CHR ''o'' \<or> p = CHR ''O'' then 8
                    else if p = CHR ''b'' \<or> p = CHR ''B'' then 2 else 0 :: nat)
           in if z = CHR ''0'' \<and> b \<noteq> 0 \<and> ds \<noteq> [] \<and> list_all (\<lambda>c. radix_digit b c \<noteq> None) ds
              then Some (fround False (of_nat (digits_val b ds))) else None)
      | _ \<Rightarrow> None)"

definition string_to_number :: "string \<Rightarrow> jsnum" where
  \<comment> \<open>\<open>Number(s)\<close> on a string: the whole trimmed string must be a numeric literal\<close>
  "string_to_number s =
     (let t = trim s
      in if t = [] then Finite False 0
         else (case scan_radix t of
                 Some v \<Rightarrow> v
               | None \<Rightarrow> (case scan_decimal t of
                             Some (v, []) \<Rightarrow> v
                           | _ \<Rightarrow> NaN)))"

definition digit_char :: "nat \<Rightarrow> char" where
  "digit_char d = ''0123456789'' ! (d mod 10)"

fun dec_digits :: "nat \<Rightarrow> string" where
  "dec_digits n = (if n < 10 then [digit_char n] else dec_digits (n div 10) @ [digit_char n])"

definition digit_candidates :: "rat \<Rightarrow> nat \<Rightarrow> (nat \<times> int) list" where
  \<comment> \<open>the pairs \<open>(s, n)\<close> of a \<open>k\<close>-digit integer \<open>s\<close> and a decimal exponent \<open>n\<close> with
      \<open>s * 10 ^ (n - k)\<close> rounding to the binary64 magnitude \<open>x\<close>: only the two multiples
      of the unit around \<open>x\<close> can\<close>
  "digit_candidates x k =
     (let n = ilog10 x + 1; u = pow10 (n - int k); lo = nat \<lfloor>x / u\<rfloor>;
          hi = (if Suc lo = 10 ^ k then (10 ^ (k - 1), n + 1) else (Suc lo, n))
      in filter (\<lambda>(s, n'). fround False (of_nat s * pow10 (n' - int k)) = Finite False x)
           [(lo, n), hi])"

definition nearer :: "rat \<Rightarrow> nat \<Rightarrow> nat \<times> int \<Rightarrow> nat \<times> int \<Rightarrow> nat \<times> int" where
  \<comment> \<open>of two candidates the one nearer to \<open>x\<close>; the language leaves the choice between
      two equally near ones to the implementation, here the even one\<close>
  "nearer x k c d =
     (let dc = \<bar>of_nat (fst c) * pow10 (snd c - int k) - x\<bar>;
          dd = \<bar>of_nat (fst d) * pow10 (snd d - int k) - x\<bar>
      in if dc < dd then c else if dd < dc then d else if even (fst c) then c else d)"

fun shortest_digits :: "nat \<Rightarrow> nat \<Rightarrow> rat \<Rightarrow> nat \<times> int" where
  \<comment> \<open>the least number of digits \<open>k\<close> that has a candidate, searched upwards; seventeen
      digits identify every binary64 value, so the first equation is the end of the
      search only in form\<close>
  "shortest_digits 0 k x = (nat \<lfloor>x / pow10 (ilog10 x + 1 - int k)\<rfloor>, ilog10 x + 1)"
| "shortest_digits (Suc fuel) k x =
     (case digit_candidates x k of
        [] \<Rightarrow> shortest_digits fuel (Suc k) x
      | [c] \<Rightarrow> c
      | c # d # _ \<Rightarrow> nearer x k c d)"

definition digits_to_string :: "nat \<Rightarrow> int \<Rightarrow> string" where
  \<comment> \<open>the layout rules of Number::toString for the digits \<open>s\<close> and the exponent \<open>n\<close>\<close>
  "digits_to_string s n =
     (let ds = dec_digits s; k = int (length ds)
      in if k \<le> n \<and> n \<le> 21 then ds @ replicate (nat (n - k)) (CHR ''0'')
         else if 0 < n \<and> n \<le> 21 then take (nat n) ds @ ''.'' @ drop (nat n) ds
         else if - 6 < n \<and> n \<le> 0 then ''0.'' @ replicate (nat (- n)) (CHR ''0'') @ ds
         else (let e = n - 1;
                   es = (if e < 0 then ''-'' else ''+'') @ dec_digits (nat \<bar>e\<bar>)
               in if k = 1 then ds @ ''e'' @ es
                  else take 1 ds @ ''.'' @ drop 1 ds @ ''e'' @ es))"

fun toString :: "jsnum \<Rightarrow> string" where
  \<comment> \<open>Number::toString, radix 10: what a template literal and \<open>toFixed\<close> use\<close>
  "toString NaN = ''NaN''"
| "toString (Infinity s) = (if s then ''-Infinity'' else ''Infinity'')"
| "toString (Finite s m) =
     (if m = 0 then ''0''
      else (if s then ''-'' else [])
           @ (case shortest_digits 17 1 m of (d, n) \<Rightarrow> digits_to_string d n))"

fun toFixed :: "nat \<Rightarrow> jsnum \<Rightarrow> string" where
  \<comment> \<open>\<open>Number.prototype.toFixed\<close> with \<open>f\<close> fraction digits, \<open>0 < f\<close>: the nearest
      multiple of \<open>10 ^ - f\<close> to the exact value, the larger one on a tie\<close>
  "toFixed f (Finite s m) =
     (if 10 ^ 21 \<le> m then toString (Finite s m)
      else (let n = nat \<lfloor>m * 10 ^ f + 1 / 2\<rfloor>;
                ds = dec_digits n;
                p = replicate (Suc f - length ds) (CHR ''0'') @ ds
            in (if s \<and> m \<noteq> 0 then ''-'' else [])
               @ take (length p - f) p @ ''.'' @ drop (length p - f) p))"
| "toFixed f x = toString x"

subsection \<open>Cells, records and errors\<close>

text \<open>
  A cell holds a string (every cell read from the CSV, the sentinel, a moving average) or
  a Number (a computed percentage change).  A record is the object built for one row: a
  finite map from the names of its own properties to cells.  An absent key reads as
  \<open>undefined\<close>: the keys the program reads (\<open>Date\<close>, \<open>Volume\<close> and the four price
  names) are not properties of \<open>Object.prototype\<close>.  The order of the properties is not
  part of the model.  The objects of one table are distinct, so a table is a list of
  records and an in-place \<open>Object.assign\<close> on the record at index \<open>i\<close> is a list update
  at \<open>i\<close>.
\<close>

datatype jsval = Str string | Num jsnum

type_synonym row = "string \<rightharpoonup> jsval"

datatype error = TypeError | ProcessExit nat

definition CURRENCY_DECIMAL_PLACES :: nat where
  "CURRENCY_DECIMAL_PLACES = 2"

definition DATE_CELL :: string where
  "DATE_CELL = ''Date''"

definition NOT_APPLICABLE :: string where
  "NOT_APPLICABLE = ''-''"

definition VALUE_CELLS :: "string list" where
  "VALUE_CELLS = [''Open'', ''High'', ''Low'', ''Close'']"

definition to_number :: "jsval option \<Rightarrow> jsnum" where
  \<comment> \<open>\<open>Number(v)\<close>\<close>
  "to_number v = (case v of None \<Rightarrow> NaN | Some (Str s) \<Rightarrow> string_to_number s | Some (Num x) \<Rightarrow> x)"

fun isNaN :: "jsnum \<Rightarrow> bool" where
  "isNaN NaN = True"
| "isNaN x = False"

section \<open>The functions of \<open>bin/prep.js\<close>\<close>

subsection \<open>\<open>pipe\<close> and \<open>rowsToObjects\<close>\<close>

definition pipe :: "('a \<Rightarrow> error + 'a) list \<Rightarrow> 'a \<Rightarrow> error + 'a" where
  \<comment> \<open>left-to-right composition; a stage that throws ends the run\<close>
  "pipe fns x = foldl (\<lambda>y f. case y of Inl e \<Rightarrow> Inl e | Inr v \<Rightarrow> f v) (Inr x) fns"

definition header_key :: "string list \<Rightarrow> nat \<Rightarrow> string" where
  \<comment> \<open>the property key \<open>[headers[i]]\<close>: past the end of the header it is \<open>undefined\<close>,
      which as a key is the string of that name\<close>
  "header_key headers i = (if i < length headers then headers ! i else ''undefined'')"

definition assign_property :: "row \<Rightarrow> string \<Rightarrow> jsval \<Rightarrow> row" where
  \<comment> \<open>\<open>Object.assign(obj, {[key]: v})\<close>: the property is set, except that setting
      \<open>__proto__\<close> calls the accessor of \<open>Object.prototype\<close>, which ignores a value that
      is not an object\<close>
  "assign_property obj key v = (if key = ''__proto__'' then obj else obj(key \<mapsto> v))"

definition rowToObject :: "string list \<Rightarrow> string list \<Rightarrow> row" where
  "rowToObject headers row =
     foldl (\<lambda>accum (i, elem). assign_property accum (header_key headers i) (Str elem))
       Map.empty (zip [0..<length row] row)"

definition rowsToObjects :: "string list list \<Rightarrow> string list \<Rightarrow> row list" where
  "rowsToObjects rows headers = map (rowToObject headers) rows"

subsection \<open>\<open>sortDataByDate\<close>\<close>

text \<open>
  \<open>Date.parse\<close> is implementation-defined on all but the ISO format, so the functions
  take it as the parameter \<open>dp\<close>: the time value in milliseconds, or \<open>None\<close> for an
  invalid date.  \<open>isoDate\<close> is \<open>Date.parse\<close> on a date-only ISO string
  \<open>YYYY-MM-DD\<close> of a real calendar day (UTC midnight), for use on concrete tables; it
  says nothing of \<open>Date.parse\<close> on any other string, where it answers \<open>None\<close>.
\<close>

definition days_from_civil :: "int \<Rightarrow> int \<Rightarrow> int \<Rightarrow> int" where
  \<comment> \<open>days from 1970-01-01 to the day \<open>d\<close> of month \<open>m\<close> of year \<open>y\<close>\<close>
  "days_from_civil y m d =
     (let y' = (if m \<le> 2 then y - 1 else y);
          era = y' div 400;
          yoe = y' - era * 400;
          doy = (153 * (if 2 < m then m - 3 else m + 9) + 2) div 5 + d - 1;
          doe = yoe * 365 + yoe div 4 - yoe div 100 + doy
      in era * 146097 + doe - 719468)"

definition days_in_month :: "int \<Rightarrow> int \<Rightarrow> int" where
  "days_in_month y m =
     (if m = 2 then (if y mod 4 = 0 \<and> (y mod 100 \<noteq> 0 \<or> y mod 400 = 0) then 29 else 28)
      else if m \<in> {4, 6, 9, 11} then 30 else 31)"

definition isoDate :: "string \<Rightarrow> int option" where
  "isoDate s =
     (if length s = 10 \<and> s ! 4 = CHR ''-'' \<and> s ! 7 = CHR ''-''
         \<and> list_all is_digit (take 4 s @ take 2 (drop 5 s) @ drop 8 s)
      then (let y = int (digits_val 10 (take 4 s));
                m = int (digits_val 10 (take 2 (drop 5 s)));
                d = int (digits_val 10 (drop 8 s))
            in if 1 \<le> m \<and> m \<le> 12 \<and> 1 \<le> d \<and> d \<le> days_in_month y m
               then Some (days_from_civil y m d * 86400000) else None)
      else None)"

definition time_clip :: "jsnum \<Rightarrow> int option" where
  "time_clip x =
     (case x of
        Finite s m \<Rightarrow> if 8640000000000000 < m then None
                       else Some (if s then - \<lfloor>m\<rfloor> else \<lfloor>m\<rfloor>)
      | _ \<Rightarrow> None)"

definition newDate :: "(string \<Rightarrow> int option) \<Rightarrow> jsval option \<Rightarrow> int option" where
  \<comment> \<open>the time value of \<open>new Date(v)\<close>\<close>
  "newDate dp v =
     (case v of None \<Rightarrow> None | Some (Str s) \<Rightarrow> dp s | Some (Num x) \<Rightarrow> time_clip x)"

definition date_number :: "int option \<Rightarrow> jsnum" where
  \<comment> \<open>a Date as an operand of \<open>-\<close>: its time value, \<open>NaN\<close> for an invalid date\<close>
  "date_number t = (case t of None \<Rightarrow> NaN | Some ms \<Rightarrow> num_of_int ms)"

definition date_compare ::
  "(string \<Rightarrow> int option) \<Rightarrow> string \<Rightarrow> row \<Rightarrow> row \<Rightarrow> jsnum" where
  \<comment> \<open>\<open>(a, b) => new Date(a[dateKey]) - new Date(b[dateKey])\<close>\<close>
  "date_compare dp dateKey a b =
     jssub (date_number (newDate dp (a dateKey))) (date_number (newDate dp (b dateKey)))"

text \<open>
  \<open>Array.prototype.sort\<close> with a comparison function is a stable sort (ECMAScript 2019
  on): \<open>a\<close> goes after \<open>b\<close> when the comparison of \<open>a\<close> with \<open>b\<close> is positive, and a
  \<open>NaN\<close> result counts as zero.  It is modelled by the stable insertion sort; with a
  comparison that is not a consistent order (a \<open>NaN\<close> among the results) the language
  leaves the outcome to the implementation, and the model is one such outcome.
\<close>

fun insort_by :: "('a \<Rightarrow> 'a \<Rightarrow> jsnum) \<Rightarrow> 'a \<Rightarrow> 'a list \<Rightarrow> 'a list" where
  "insort_by c x [] = [x]"
| "insort_by c x (y # ys) =
     (if jslt (Finite False 0) (c x y) then y # insort_by c x ys else x # y # ys)"

definition array_sort :: "('a \<Rightarrow> 'a \<Rightarrow> jsnum) \<Rightarrow> 'a list \<Rightarrow> 'a list" where
  "array_sort c xs = foldr (insort_by c) xs []"

definition sortDataByDate ::
  "(string \<Rightarrow> int option) \<Rightarrow> string \<Rightarrow> row list \<Rightarrow> row list" where
  "sortDataByDate dp dateKey data = array_sort (date_compare dp dateKey) data"

subsection \<open>The transforms\<close>

text \<open>
  Each transform is \<open>data.map((row, i) => Object.assign(row, \<dots>))\<close>: it visits the
  indices in order, computes the new columns of row \<open>i\<close> from the table as it is then
  (the rows before \<open>i\<close> already carry their new columns) and assigns them to the row in
  place.  \<open>map_assign\<close> is that loop; the array it returns holds the same, updated rows.
  The names of the new columns are fixed texts, none of them \<open>__proto__\<close>, so the
  assignment is the override \<open>++\<close> of maps.
\<close>

fun map_assign ::
  "(row list \<Rightarrow> nat \<Rightarrow> error + row) \<Rightarrow> nat list \<Rightarrow> row list \<Rightarrow> error + row list" where
  "map_assign g [] data = Inr data"
| "map_assign g (i # is) data =
     (case g data i of
        Inl e \<Rightarrow> Inl e
      | Inr cols \<Rightarrow> map_assign g is (data[i := (data ! i) ++ cols]))"

definition percent_change :: "bool \<Rightarrow> jsval option \<Rightarrow> jsval option \<Rightarrow> error + jsval" where
  \<comment> \<open>the body shared by the two percentage transforms: \<open>edge\<close> is the test on \<open>i - 1\<close>,
      \<open>cur\<close> the cell of the row and \<open>prev\<close> the cell of the row before it.
      \<open>replace\<close> exists on strings only: on any other cell the call throws\<close>
  "percent_change edge cur prev =
     (if edge \<and> cur \<noteq> Some (Str NOT_APPLICABLE) \<and> prev \<noteq> Some (Str NOT_APPLICABLE) then
        (case prev of
           Some (Str p) \<Rightarrow>
             (case cur of
                Some (Str c) \<Rightarrow>
                  (let oldValue = parseFloat (strip_commas p);
                       newValue = parseFloat (strip_commas c)
                   in Inr (Num (jsmul (jsdiv (jssub newValue oldValue) oldValue)
                                  (num_of_nat 100))))
              | _ \<Rightarrow> Inl TypeError)
         | _ \<Rightarrow> Inl TypeError)
      else Inr (Str ''-''))"

definition volume_columns :: "row list \<Rightarrow> nat \<Rightarrow> error + row" where
  "volume_columns data i =
     (let volumeKey = ''Volume''; row = data ! i
      in case percent_change (0 \<le> int i - 1) (row volumeKey) ((data ! (i - 1)) volumeKey) of
           Inl e \<Rightarrow> Inl e
         | Inr change \<Rightarrow> Inr [''Daily Change in Volume'' \<mapsto> change])"

definition percentagesChangeInVolume :: "row list \<Rightarrow> error + row list" where
  "percentagesChangeInVolume data = map_assign volume_columns [0..<length data] data"

fun price_reduce :: "row list \<Rightarrow> nat \<Rightarrow> string list \<Rightarrow> row \<Rightarrow> error + row" where
  "price_reduce data i [] accum = Inr accum"
| "price_reduce data i (key # keys) accum =
     (case percent_change (0 < int i - 1) ((data ! i) key) ((data ! (i - 1)) key) of
        Inl e \<Rightarrow> Inl e
      | Inr change \<Rightarrow>
          price_reduce data i keys (accum(key @ '' - Daily Percentage Change'' \<mapsto> change)))"

definition price_columns :: "row list \<Rightarrow> nat \<Rightarrow> error + row" where
  "price_columns data i =
     (let priceKeys = [''Open'', ''High'', ''Low'', ''Close'']
      in price_reduce data i priceKeys Map.empty)"

definition percentagesChangeInPrices :: "row list \<Rightarrow> error + row list" where
  "percentagesChangeInPrices data = map_assign price_columns [0..<length data] data"

definition numberToCurrencyValue :: "jsnum \<Rightarrow> string" where
  "numberToCurrencyValue num = toFixed CURRENCY_DECIMAL_PLACES num"

definition slice_index :: "jsnum \<Rightarrow> nat \<Rightarrow> nat" where
  \<comment> \<open>the start of \<open>slice\<close> on an array of length \<open>len\<close>: the argument truncated to an
      integer, counted from the end when negative, clamped to the array\<close>
  "slice_index x len =
     (case x of
        NaN \<Rightarrow> 0
      | Infinity s \<Rightarrow> if s then 0 else len
      | Finite s m \<Rightarrow> if s \<and> \<lfloor>m\<rfloor> \<noteq> 0 then len - nat \<lfloor>m\<rfloor> else min (nat \<lfloor>m\<rfloor>) len)"

definition array_slice :: "jsnum \<Rightarrow> nat \<Rightarrow> 'a list \<Rightarrow> 'a list" where
  \<comment> \<open>\<open>xs.slice(start, end)\<close> for an index \<open>end\<close>\<close>
  "array_slice start end xs =
     (let k = slice_index start (length xs);
          final = min end (length xs)
      in take (final - k) (drop k xs))"

definition average_name :: "string \<Rightarrow> jsnum \<Rightarrow> string" where
  "average_name cell multiplier =
     (let epoch = ''days''
      in cell @ '' Moving Average - '' @ toString multiplier @ '' '' @ epoch)"

definition average_cell :: "jsnum \<Rightarrow> row list \<Rightarrow> nat \<Rightarrow> string \<Rightarrow> jsval" where
  "average_cell multiplier data i cell =
     (if jslt (num_of_nat i) (jssub multiplier (num_of_nat 1)) then Str NOT_APPLICABLE
      else (let sum = foldl (\<lambda>cellAccum row. jsadd cellAccum (to_number (row cell)))
                        (Finite False 0)
                        (array_slice (jssub (num_of_nat (i + 1)) multiplier) (i + 1) data);
                movingAverage = jsdiv sum multiplier
            in Str (numberToCurrencyValue movingAverage)))"

definition average_columns :: "jsnum \<Rightarrow> row list \<Rightarrow> nat \<Rightarrow> error + row" where
  "average_columns multiplier data i =
     Inr (foldl (\<lambda>avgAccum cell.
                   avgAccum(average_name cell multiplier \<mapsto> average_cell multiplier data i cell))
            Map.empty VALUE_CELLS)"

definition movingAverage :: "jsnum \<Rightarrow> row list \<Rightarrow> error + row list" where
  "movingAverage multiplier data =
     map_assign (average_columns multiplier) [0..<length data] data"

subsection \<open>Configuration and the pipeline\<close>

definition DEFAULT_MOVING_AVERAGES :: "jsnum list" where
  "DEFAULT_MOVING_AVERAGES = map num_of_nat [5, 50, 100, 200]"

fun check_tokens :: "string list \<Rightarrow> error + jsnum list" where
  \<comment> \<open>the second \<open>map\<close> of \<open>formatInputtedMovingAverages\<close>: the first token that is not
      a number ends the process with exit code 1\<close>
  "check_tokens [] = Inr []"
| "check_tokens (a # as) =
     (if isNaN (string_to_number a) then Inl (ProcessExit 1)
      else (case check_tokens as of
              Inl e \<Rightarrow> Inl e
            | Inr ns \<Rightarrow> Inr (string_to_number a # ns)))"

definition formatInputtedMovingAverages :: "string option \<Rightarrow> error + jsnum list option" where
  \<comment> \<open>the argument is the value of \<open>--moving-averages\<close>, given at most once on the
      command line; \<open>None\<close> when it is not given\<close>
  "formatInputtedMovingAverages avgsString =
     (case avgsString of
        None \<Rightarrow> Inr None
      | Some s \<Rightarrow>
          if s = [] then Inr None
          else (case check_tokens (map trim (split_commas s)) of
                  Inl e \<Rightarrow> Inl e
                | Inr ns \<Rightarrow> Inr (Some ns)))"

definition movingAverages :: "string option \<Rightarrow> error + (row list \<Rightarrow> error + row list) list" where
  "movingAverages arg =
     (case formatInputtedMovingAverages arg of
        Inl e \<Rightarrow> Inl e
      | Inr r \<Rightarrow>
          (let movingAverageLengths = (case r of None \<Rightarrow> DEFAULT_MOVING_AVERAGES | Some ns \<Rightarrow> ns)
           in Inr (map (\<lambda>len. movingAverage len) movingAverageLengths)))"

definition prepareData :: "string option \<Rightarrow> row list \<Rightarrow> error + row list" where
  \<comment> \<open>the arguments of \<open>pipe\<close> are evaluated, \<open>movingAverages()\<close> among them, before the
      composed function is applied to the table\<close>
  "prepareData arg data =
     (case movingAverages arg of
        Inl e \<Rightarrow> Inl e
      | Inr avgs \<Rightarrow> pipe ([percentagesChangeInVolume, percentagesChangeInPrices] @ avgs) data)"

definition enrich ::
  "(string \<Rightarrow> int option) \<Rightarrow> string option \<Rightarrow> string list list \<Rightarrow> error + row list" where
  \<comment> \<open>\<open>main\<close> from the parsed CSV to the table handed to \<open>output\<close>\<close>
  "enrich dp arg csv =
     (let headers = (case csv of [] \<Rightarrow> [] | h # _ \<Rightarrow> h);
          data = rowsToObjects (drop 1 csv) headers
      in pipe [\<lambda>d. Inr (sortDataByDate dp DATE_CELL d), prepareData arg] data)"

subsection \<open>Notions used to state the properties\<close>

definition agree_on :: "string set \<Rightarrow> row list \<Rightarrow> row list \<Rightarrow> bool" where
  \<comment> \<open>two tables of the same length with the same cells in the columns \<open>K\<close>\<close>
  "agree_on K d d' =
     (length d = length d' \<and> (\<forall>j < length d. \<forall>k \<in> K. (d ! j) k = (d' ! j) k))"

definition spec_percentage_change :: "jsnum \<Rightarrow> jsnum \<Rightarrow> jsnum" where
  \<comment> \<open>the specification's formula \<open>(current - previous) / previous * 100\<close>\<close>
  "spec_percentage_change current previous =
     jsmul (jsdiv (jssub current previous) previous) (num_of_nat 100)"

definition volumes_example :: "row list" where
  "volumes_example =
     [[''Volume'' \<mapsto> Str ''100''], [''Volume'' \<mapsto> Str ''-''], [''Volume'' \<mapsto> Str ''150'']]"

definition prices_example :: "row list" where
  "prices_example =
     map (\<lambda>v. [''Open'' \<mapsto> Str v, ''High'' \<mapsto> Str v, ''Low'' \<mapsto> Str v, ''Close'' \<mapsto> Str v])
       [''10'', ''20'', ''30'']"


definition rerun_example :: "row list" where
  "rerun_example = [[''Volume'' \<mapsto> Str ''100'', ''Daily Change in Volume'' \<mapsto> Str ''5'']]"

definition gap_example :: "row list" where
  "gap_example =
     map (\<lambda>v. [''Open'' \<mapsto> Str v, ''High'' \<mapsto> Str v, ''Low'' \<mapsto> Str v, ''Close'' \<mapsto> Str v])
       [''-'', ''10'']"

definition zero_volume_example :: "row list" where
  "zero_volume_example = [[''Volume'' \<mapsto> Str ''0''], [''Volume'' \<mapsto> Str ''5'']]"

definition ragged_rows :: "string list list" where
  "ragged_rows = [[''2020-01-01'', ''10''], [''2020-01-02'', ''20'', ''300'', ''x'', ''y'']]"

definition ragged_headers :: "string list" where
  "ragged_headers = [''Date'', ''Close'', ''Volume'']"

definition dates_example :: "row list" where
  "dates_example =
     [[''Date'' \<mapsto> Str ''2020-01-02'', ''Close'' \<mapsto> Str ''30''],
      [''Date'' \<mapsto> Str ''2020-01-01'', ''Close'' \<mapsto> Str ''10''],
      [''Date'' \<mapsto> Str ''2020-01-01'', ''Close'' \<mapsto> Str ''20'']]"






definition spec_digit :: "char \<Rightarrow> bool" where
  \<comment> \<open>a decimal digit: the code units of \<open>0\<close> to \<open>9\<close>\<close>
  "spec_digit c = (48 \<le> (of_char c :: nat) \<and> (of_char c :: nat) \<le> 57)"

definition spec_digits_value :: "string \<Rightarrow> nat" where
  \<comment> \<open>the natural number that a string of decimal digits denotes\<close>
  "spec_digits_value ds = foldl (\<lambda>n c. 10 * n + (of_char c - 48)) 0 ds"

definition spec_decimal_value :: "string \<Rightarrow> rat option" where
  \<comment> \<open>the value of a plain decimal numeral: digits, or digits, a point and digits;
      \<open>None\<close> for every other text\<close>
  "spec_decimal_value s =
     (let ip = takeWhile (\<lambda>c. c \<noteq> CHR ''.'') s; r = dropWhile (\<lambda>c. c \<noteq> CHR ''.'') s
      in if ip = [] \<or> \<not> list_all spec_digit ip then None
         else (case r of
                 [] \<Rightarrow> Some (of_nat (spec_digits_value ip))
               | _ # fp \<Rightarrow>
                   if fp = [] \<or> \<not> list_all spec_digit fp then None
                   else Some (of_nat (spec_digits_value ip)
                              + of_nat (spec_digits_value fp) / 10 ^ length fp)))"

definition comma_volumes_example :: "row list" where
  "comma_volumes_example = [[''Volume'' \<mapsto> Str ''1,000''], [''Volume'' \<mapsto> Str ''1,500'']]"

definition is_string :: "jsval option \<Rightarrow> bool" where
  "is_string v = (case v of Some (Str s) \<Rightarrow> True | _ \<Rightarrow> False)"

definition unreadable :: "jsval option \<Rightarrow> jsval option \<Rightarrow> bool" where
  \<comment> \<open>the two cells a percentage transform reads at a row, when neither is the sentinel
      and one of them is absent or a Number: \<open>replace\<close> is then called on a value that
      has no such method\<close>
  "unreadable cur prev =
     (cur \<noteq> Some (Str ''-'') \<and> prev \<noteq> Some (Str ''-'') \<and> \<not> (is_string cur \<and> is_string prev))"

definition missing_volume_example :: "row list" where
  "missing_volume_example = [[''Volume'' \<mapsto> Str ''100''], Map.empty]"

section \<open>Properties\<close>

subsection \<open>The in-place loop computes every row from the table it was given\<close>

lemma agree_on_refl: "agree_on K d d"
  by (simp add: agree_on_def)

lemma agree_on_update:
  assumes "agree_on K d0 d" and "dom cols \<inter> K = {}"
  shows "agree_on K d0 (d[i := (d ! i) ++ cols])"
proof -
  have none: "cols k = None" if "k \<in> K" for k
    using assms(2) that by auto
  have "((d[i := (d ! i) ++ cols]) ! j) k = (d ! j) k" if "k \<in> K" "j < length d" for j k
  proof (cases "j = i")
    case True
    then show ?thesis using that none [of k] by (simp add: map_add_def)
  next
    case False
    then show ?thesis by simp
  qed
  then show ?thesis
    using assms(1) by (simp add: agree_on_def)
qed

lemma map_assign_result:
  assumes dep: "\<And>d d' i. agree_on K d d' \<Longrightarrow> i < length d \<Longrightarrow> g d i = g d' i"
    and frame: "\<And>d i cols. g d i = Inr cols \<Longrightarrow> dom cols \<inter> K = {}"
  shows "agree_on K d0 d \<Longrightarrow> distinct is \<Longrightarrow> \<forall>i \<in> set is. i < length d \<Longrightarrow>
         map_assign g is d = Inr d' \<Longrightarrow>
         length d' = length d
         \<and> (\<forall>i \<in> set is. \<exists>cols. g d0 i = Inr cols \<and> d' ! i = (d ! i) ++ cols)
         \<and> (\<forall>j. j \<notin> set is \<longrightarrow> d' ! j = d ! j)"
proof (induction "is" arbitrary: d)
  case Nil
  then show ?case by simp
next
  case (Cons i "is")
  have ilt: "i < length d" using Cons.prems(3) by simp
  have len0: "length d0 = length d" using Cons.prems(1) by (simp add: agree_on_def)
  have same: "g d i = g d0 i"
    using dep [OF Cons.prems(1), of i] ilt len0 by simp
  from Cons.prems(4) obtain cols where cols: "g d i = Inr cols"
    and rest: "map_assign g is (d[i := (d ! i) ++ cols]) = Inr d'"
    by (auto split: sum.splits)
  let ?d1 = "d[i := (d ! i) ++ cols]"
  have ag: "agree_on K d0 ?d1"
    using agree_on_update [OF Cons.prems(1) frame [OF cols]] .
  have ih: "length d' = length ?d1
         \<and> (\<forall>j \<in> set is. \<exists>c. g d0 j = Inr c \<and> d' ! j = (?d1 ! j) ++ c)
         \<and> (\<forall>j. j \<notin> set is \<longrightarrow> d' ! j = ?d1 ! j)"
    using Cons.IH [OF ag _ _ rest] Cons.prems(2,3) by simp
  have notin: "i \<notin> set is" using Cons.prems(2) by simp
  have "d' ! i = (d ! i) ++ cols"
    using ih notin ilt by simp
  moreover have "g d0 i = Inr cols"
    using same cols by simp
  ultimately have head: "\<exists>c. g d0 i = Inr c \<and> d' ! i = (d ! i) ++ c"
    by blast
  have tl: "\<forall>j \<in> set is. \<exists>c. g d0 j = Inr c \<and> d' ! j = (d ! j) ++ c"
  proof
    fix j assume j: "j \<in> set is"
    then have "j \<noteq> i" using notin by auto
    then have "?d1 ! j = d ! j" by simp
    then show "\<exists>c. g d0 j = Inr c \<and> d' ! j = (d ! j) ++ c"
      using ih j by auto
  qed
  have others: "\<forall>j. j \<notin> set (i # is) \<longrightarrow> d' ! j = d ! j"
    using ih by auto
  have "length d' = length d"
    using ih by simp
  then show ?case
    using head tl others by simp
qed

lemma map_assign_total:
  assumes dep: "\<And>d d' i. agree_on K d d' \<Longrightarrow> i < length d \<Longrightarrow> g d i = g d' i"
    and frame: "\<And>d i cols. g d i = Inr cols \<Longrightarrow> dom cols \<inter> K = {}"
  shows "agree_on K d0 d \<Longrightarrow> \<forall>i \<in> set is. i < length d \<Longrightarrow>
         \<forall>i \<in> set is. \<exists>cols. g d0 i = Inr cols \<Longrightarrow> \<exists>d'. map_assign g is d = Inr d'"
proof (induction "is" arbitrary: d)
  case Nil
  then show ?case by simp
next
  case (Cons i "is")
  have ilt: "i < length d" using Cons.prems(2) by simp
  have len0: "length d0 = length d" using Cons.prems(1) by (simp add: agree_on_def)
  have same: "g d i = g d0 i"
    using dep [OF Cons.prems(1), of i] ilt len0 by simp
  from Cons.prems(3) obtain cols where cols: "g d i = Inr cols"
    using same by auto
  have ag: "agree_on K d0 (d[i := (d ! i) ++ cols])"
    using agree_on_update [OF Cons.prems(1) frame [OF cols]] .
  have "\<exists>d'. map_assign g is (d[i := (d ! i) ++ cols]) = Inr d'"
    using Cons.IH [OF ag] Cons.prems(2,3) by simp
  then show ?case using cols by simp
qed

lemma map_assign_error:
  assumes dep: "\<And>d d' i. agree_on K d d' \<Longrightarrow> i < length d \<Longrightarrow> g d i = g d' i"
    and frame: "\<And>d i cols. g d i = Inr cols \<Longrightarrow> dom cols \<inter> K = {}"
  shows "agree_on K d0 d \<Longrightarrow> \<forall>i \<in> set is. i < length d \<Longrightarrow>
         map_assign g is d = Inl e \<Longrightarrow> \<exists>i \<in> set is. g d0 i = Inl e"
proof (induction "is" arbitrary: d)
  case Nil
  then show ?case by simp
next
  case (Cons i "is")
  have ilt: "i < length d" using Cons.prems(2) by simp
  have len0: "length d0 = length d" using Cons.prems(1) by (simp add: agree_on_def)
  have same: "g d i = g d0 i"
    using dep [OF Cons.prems(1), of i] ilt len0 by simp
  show ?case
  proof (cases "g d i")
    case (Inl e')
    then show ?thesis using Cons.prems(3) same by auto
  next
    case (Inr cols)
    have ag: "agree_on K d0 (d[i := (d ! i) ++ cols])"
      using agree_on_update [OF Cons.prems(1) frame [OF Inr]] .
    have "map_assign g is (d[i := (d ! i) ++ cols]) = Inl e"
      using Cons.prems(3) Inr by simp
    then have "\<exists>j \<in> set is. g d0 j = Inl e"
      using Cons.IH [OF ag] Cons.prems(2) by simp
    then show ?thesis by auto
  qed
qed

subsection \<open>Evaluating the conversions on concrete strings and numbers\<close>

lemma floor_rat_numeral: "\<lfloor>(numeral a :: rat) / numeral b\<rfloor> = numeral a div numeral b"
  by (metis floor_divide_of_int_eq of_int_numeral)

lemma floor_rat_one: "\<lfloor>(1 :: rat) / numeral b\<rfloor> = 1 div numeral b"
  by (metis floor_divide_of_int_eq of_int_numeral of_int_1)

lemma ceiling_rat_numeral:
  "\<lceil>(numeral a :: rat) / numeral b\<rceil> = - (- numeral a div numeral b)"
  by (metis ceiling_divide_eq_div of_int_numeral)

lemma ceiling_rat_one: "\<lceil>(1 :: rat) / numeral b\<rceil> = - (- 1 div numeral b)"
  by (metis ceiling_divide_eq_div of_int_numeral of_int_1)

lemmas num_defs = num_of_nat_def jssub_def fround_def round_mag_def ilog2_def pow2_def
  round_half_even_def sval_def Let_def floor_rat_numeral floor_rat_one ceiling_rat_numeral
  ceiling_rat_one

lemmas parse_defs = parseFloat_def strip_commas_def scan_decimal_def scan_unsigned_def
  scan_exponent_def is_digit_def radix_digit_def digits_val_def is_space_def pow10_def

subsection \<open>Plain decimal numerals\<close>

text \<open>
  On a plain decimal numeral \<open>parseFloat\<close> and \<open>Number\<close> agree: both give the
  binary64 value nearest to the value of the numeral.
\<close>

lemma is_digit_spec: "is_digit c = spec_digit c"
  by (auto simp: is_digit_def radix_digit_def spec_digit_def Let_def)

lemma radix_digit_spec: "spec_digit c \<Longrightarrow> radix_digit 10 c = Some (of_char c - 48)"
  by (auto simp: radix_digit_def spec_digit_def Let_def)

lemma digits_val_spec_aux:
  "list_all spec_digit ds \<Longrightarrow>
   foldl (\<lambda>a c. 10 * a + (case radix_digit 10 c of None \<Rightarrow> 0 | Some d \<Rightarrow> d)) a ds
     = foldl (\<lambda>n c. 10 * n + (of_char c - 48)) a ds"
  by (induction ds arbitrary: a) (simp_all add: radix_digit_spec)

lemma digits_val_spec: "list_all spec_digit ds \<Longrightarrow> digits_val 10 ds = spec_digits_value ds"
  by (simp add: digits_val_def spec_digits_value_def digits_val_spec_aux)

lemma spec_digit_not_point: "spec_digit c \<Longrightarrow> c \<noteq> CHR ''.''"
  by (auto simp: spec_digit_def)

lemma spec_decimal_value_cases:
  assumes "spec_decimal_value s = Some q"
  shows "(\<exists>ip. s = ip \<and> ip \<noteq> [] \<and> list_all spec_digit ip \<and> q = of_nat (spec_digits_value ip))
       \<or> (\<exists>ip fp. s = ip @ CHR ''.'' # fp \<and> ip \<noteq> [] \<and> list_all spec_digit ip
             \<and> fp \<noteq> [] \<and> list_all spec_digit fp
             \<and> q = of_nat (spec_digits_value ip) + of_nat (spec_digits_value fp) / 10 ^ length fp)"
proof -
  define ip where "ip = takeWhile (\<lambda>c. c \<noteq> CHR ''.'') s"
  define r where "r = dropWhile (\<lambda>c. c \<noteq> CHR ''.'') s"
  have s: "s = ip @ r" by (simp add: ip_def r_def)
  have ip: "ip \<noteq> []" "list_all spec_digit ip"
    using assms by (auto simp: spec_decimal_value_def Let_def ip_def split: if_splits)
  show ?thesis
  proof (cases r)
    case Nil
    then have "q = of_nat (spec_digits_value ip)"
      using assms ip by (simp add: spec_decimal_value_def Let_def ip_def [symmetric] r_def [symmetric])
    then show ?thesis using s Nil ip by simp
  next
    case (Cons c fp)
    have "c = CHR ''.''"
      using Cons hd_dropWhile [of "\<lambda>c. c \<noteq> CHR ''.''" s] by (simp add: r_def)
    moreover have "fp \<noteq> [] \<and> list_all spec_digit fp
        \<and> q = of_nat (spec_digits_value ip) + of_nat (spec_digits_value fp) / 10 ^ length fp"
      using assms ip Cons
      by (simp add: spec_decimal_value_def Let_def ip_def [symmetric] r_def [symmetric]
          split: if_splits)
    ultimately show ?thesis using s Cons ip by blast
  qed
qed

lemma spec_digit_facts:
  assumes "spec_digit c"
  shows "\<not> is_space c" and "c \<noteq> CHR ''-''" and "c \<noteq> CHR ''+''" and "c \<noteq> CHR ''I''"
    and "c \<noteq> CHR ''x''" and "c \<noteq> CHR ''X''" and "c \<noteq> CHR ''o''" and "c \<noteq> CHR ''O''"
    and "c \<noteq> CHR ''b''" and "c \<noteq> CHR ''B''" and "c \<noteq> CHR ''.''"
  using assms by (auto simp: spec_digit_def is_space_def)

lemma takeWhile_digits:
  assumes "list_all spec_digit ip" and "r = [] \<or> \<not> spec_digit (hd r)"
  shows "takeWhile is_digit (ip @ r) = ip" and "dropWhile is_digit (ip @ r) = r"
proof -
  have all: "\<forall>c \<in> set ip. is_digit c"
    using assms(1) by (simp add: list_all_iff is_digit_spec)
  have stop: "takeWhile is_digit r = []" "dropWhile is_digit r = r"
    using assms(2) by (cases r; simp add: is_digit_spec)+
  show "takeWhile is_digit (ip @ r) = ip"
    using all stop by (simp add: takeWhile_append2)
  show "dropWhile is_digit (ip @ r) = r"
    using all stop by (simp add: dropWhile_append2)
qed

lemma scan_unsigned_integer:
  assumes "ip \<noteq> []" and "list_all spec_digit ip"
  shows "scan_unsigned ip = Some (of_nat (spec_digits_value ip), [])"
proof -
  have a: "takeWhile is_digit ip = ip" "dropWhile is_digit ip = []"
    using takeWhile_digits [OF assms(2), of "[]"] by simp_all
  show ?thesis
    using assms by (simp add: scan_unsigned_def Let_def digits_val_spec a)
qed

lemma scan_unsigned_fraction:
  assumes "ip \<noteq> []" and "list_all spec_digit ip" and "fp \<noteq> []" and "list_all spec_digit fp"
  shows "scan_unsigned (ip @ CHR ''.'' # fp) =
     Some (of_nat (spec_digits_value ip) + of_nat (spec_digits_value fp) / 10 ^ length fp, [])"
proof -
  have "\<not> spec_digit (CHR ''.'')" by (simp add: spec_digit_def)
  then have a: "takeWhile is_digit (ip @ CHR ''.'' # fp) = ip"
    "dropWhile is_digit (ip @ CHR ''.'' # fp) = CHR ''.'' # fp"
    using takeWhile_digits [OF assms(2), of "CHR ''.'' # fp"] by simp_all
  have b: "takeWhile is_digit fp = fp" "dropWhile is_digit fp = []"
    using takeWhile_digits [OF assms(4), of "[]"] by simp_all
  show ?thesis
    using assms
    by (simp add: scan_unsigned_def Let_def a b scan_exponent_def pow10_def digits_val_spec)
qed

lemma scan_unsigned_spec:
  assumes "spec_decimal_value s = Some q"
  shows "scan_unsigned s = Some (q, [])"
  using spec_decimal_value_cases [OF assms] scan_unsigned_integer scan_unsigned_fraction
  by auto

lemma spec_decimal_value_head:
  assumes "spec_decimal_value s = Some q"
  shows "s \<noteq> [] \<and> spec_digit (hd s) \<and> spec_digit (last s)
     \<and> (\<forall>z p ds. s = z # p # ds \<longrightarrow> spec_digit p \<or> p = CHR ''.'')"
proof -
  have second: "spec_digit p \<or> p = CHR ''.''"
    if "ip @ r = z # p # ds" and "ip \<noteq> []" and "list_all spec_digit ip"
      and "r = [] \<or> hd r = CHR ''.''" for ip r z p ds
  proof (cases ip)
    case Nil
    then show ?thesis using that by simp
  next
    case (Cons a ip')
    show ?thesis
    proof (cases ip')
      case Nil
      then show ?thesis using that Cons by (cases r) auto
    next
      case (Cons b ip'')
      then show ?thesis using that \<open>ip = a # ip'\<close> by auto
    qed
  qed
  from spec_decimal_value_cases [OF assms] show ?thesis
  proof (elim disjE exE conjE)
    fix ip assume "s = ip" "ip \<noteq> []" "list_all spec_digit ip"
    then show ?thesis
      using second [of ip "[]"] by (auto simp: list_all_iff)
  next
    fix ip fp
    assume "s = ip @ CHR ''.'' # fp" "ip \<noteq> []" "list_all spec_digit ip"
      "fp \<noteq> []" "list_all spec_digit fp"
    then show ?thesis
      using second [of ip "CHR ''.'' # fp"] by (auto simp: list_all_iff hd_append)
  qed
qed

lemma scan_decimal_spec:
  assumes "spec_decimal_value s = Some q"
  shows "scan_decimal s = Some (fround False q, [])"
proof -
  obtain c t where s: "s = c # t" and c: "spec_digit c"
    using spec_decimal_value_head [OF assms] by (cases s) auto
  have inf: "take 8 s \<noteq> ''Infinity''"
    using s spec_digit_facts(4) [OF c] by auto
  have neg: "(case s of [] \<Rightarrow> False | g # _ \<Rightarrow> g = CHR ''-'') = False"
    using s spec_digit_facts(2) [OF c] by simp
  have t: "(case s of [] \<Rightarrow> s | g # t' \<Rightarrow> if g = CHR ''+'' \<or> g = CHR ''-'' then t' else s) = s"
    using s spec_digit_facts(2,3) [OF c] by simp
  show ?thesis
    unfolding scan_decimal_def Let_def neg t
    using inf by (simp add: scan_unsigned_spec [OF assms])
qed

lemma parseFloat_spec:
  assumes "spec_decimal_value s = Some q"
  shows "parseFloat s = fround False q"
proof -
  obtain c t where s: "s = c # t" and c: "spec_digit c"
    using spec_decimal_value_head [OF assms] by (cases s) auto
  have "dropWhile is_space s = s"
    using s spec_digit_facts(1) [OF c] by simp
  then show ?thesis
    by (simp add: parseFloat_def scan_decimal_spec [OF assms])
qed

lemma trim_spec:
  assumes "spec_decimal_value s = Some q"
  shows "trim s = s"
proof -
  have ne: "s \<noteq> []" and h: "spec_digit (hd s)" and l: "spec_digit (last s)"
    using spec_decimal_value_head [OF assms] by blast+
  have a: "dropWhile is_space s = s"
    using ne spec_digit_facts(1) [OF h] by (cases s) simp_all
  have "rev s = rev (butlast s @ [last s])"
    using ne by simp
  also have "\<dots> = last s # rev (butlast s)"
    by simp
  finally have "rev s = last s # rev (butlast s)" .
  moreover have "dropWhile is_space (last s # rev (butlast s)) = last s # rev (butlast s)"
    using spec_digit_facts(1) [OF l] by simp
  ultimately have b: "dropWhile is_space (rev s) = rev s"
    by (simp only:)
  show ?thesis by (simp add: trim_def a b)
qed

lemma scan_radix_plain:
  assumes "p \<noteq> CHR ''x''" "p \<noteq> CHR ''X''" "p \<noteq> CHR ''o''" "p \<noteq> CHR ''O''"
    "p \<noteq> CHR ''b''" "p \<noteq> CHR ''B''"
  shows "scan_radix (z # p # ds) = None"
  using assms by (simp add: scan_radix_def)

lemma scan_radix_spec:
  assumes "spec_decimal_value s = Some q"
  shows "scan_radix s = None"
proof (cases s)
  case Nil
  then show ?thesis by (simp add: scan_radix_def)
next
  case (Cons z t)
  show ?thesis
  proof (cases t)
    case Nil
    then show ?thesis using Cons by (simp add: scan_radix_def)
  next
    case (Cons p ds)
    then have s: "s = z # p # ds" using \<open>s = z # t\<close> by simp
    then have "spec_digit p \<or> p = CHR ''.''"
      using spec_decimal_value_head [OF assms] by blast
    then show ?thesis
    proof
      assume d: "spec_digit p"
      show ?thesis
        unfolding s using spec_digit_facts(5-10) [OF d] by (rule scan_radix_plain)
    next
      assume "p = CHR ''.''"
      then show ?thesis
        unfolding s by (simp add: scan_radix_plain)
    qed
  qed
qed

lemma string_to_number_spec:
  assumes "spec_decimal_value s = Some q"
  shows "string_to_number s = fround False q"
proof -
  have "s \<noteq> []" using spec_decimal_value_head [OF assms] by blast
  then show ?thesis
    by (simp add: string_to_number_def Let_def trim_spec [OF assms] scan_radix_spec [OF assms]
        scan_decimal_spec [OF assms])
qed

subsection \<open>Integers in binary64 arithmetic\<close>

lemma bit_length_le: "n < 2 ^ k \<Longrightarrow> bit_length n \<le> k"
proof (induction k arbitrary: n)
  case 0
  then show ?case by simp
next
  case (Suc k)
  show ?case
  proof (cases "n = 0")
    case True
    then show ?thesis by simp
  next
    case False
    have "n div 2 < 2 ^ k" using Suc.prems by auto
    then have "bit_length (n div 2) \<le> k" by (rule Suc.IH)
    then show ?thesis using False by (subst bit_length.simps) simp
  qed
qed

lemma bit_length_lower: "0 < n \<Longrightarrow> 2 ^ (bit_length n - 1) \<le> n"
proof (induction n rule: bit_length.induct)
  case (1 n)
  show ?case
  proof (cases "n div 2 = 0")
    case True
    then have "bit_length (n div 2) = 0" by simp
    then have "bit_length n = 1" using "1.prems" by (subst bit_length.simps) simp
    then show ?thesis using "1.prems" by simp
  next
    case False
    then have pos: "0 < n div 2" by simp
    have ih: "2 ^ (bit_length (n div 2) - 1) \<le> n div 2"
      using "1.IH" "1.prems" pos by simp
    have bl: "bit_length n = Suc (bit_length (n div 2))"
      using "1.prems" by (subst bit_length.simps) simp
    have "0 < bit_length (n div 2)"
      using pos by (subst bit_length.simps) simp
    then have "2 ^ (bit_length n - 1) = 2 * 2 ^ (bit_length (n div 2) - 1)"
      using bl by (cases "bit_length (n div 2)") simp_all
    also have "\<dots> \<le> 2 * (n div 2)" using ih by simp
    also have "\<dots> \<le> n" by simp
    finally show ?thesis .
  qed
qed

lemma bit_length_upper: "n < 2 ^ bit_length n"
proof (induction n rule: bit_length.induct)
  case (1 n)
  show ?case
  proof (cases "n = 0")
    case True
    then show ?thesis by simp
  next
    case False
    then have "n div 2 < 2 ^ bit_length (n div 2)" by (rule "1.IH")
    then have "n < 2 * 2 ^ bit_length (n div 2)" by linarith
    moreover have "bit_length n = Suc (bit_length (n div 2))"
      using False by (subst bit_length.simps) simp
    ultimately show ?thesis by simp
  qed
qed

lemma round_half_even_of_int: "round_half_even (of_int k) = k"
  by (simp add: round_half_even_def)

lemma round_half_even_ge_floor: "\<lfloor>q\<rfloor> \<le> round_half_even q"
  by (simp add: round_half_even_def Let_def)

lemma pow2_pos: "0 < pow2 e"
  by (simp add: pow2_def)

lemma pow2_powi: "pow2 e = 2 powi e"
  by (simp add: pow2_def power_int_def inverse_eq_divide power_one_over)

lemma pow2_mono: "a \<le> b \<Longrightarrow> pow2 a \<le> pow2 b"
  by (simp add: pow2_powi power_int_increasing)

lemma ilog2_of_nat: "0 < n \<Longrightarrow> ilog2 (of_nat n) = int (bit_length n) - 1"
  by (simp add: ilog2_def)

lemma pow2_ilog2_le:
  assumes "1 \<le> r"
  shows "pow2 (ilog2 r) \<le> r"
proof -
  define n where "n = nat \<lfloor>r\<rfloor>"
  have n: "0 < n" "of_nat n \<le> r"
    using assms by (simp_all add: n_def)
  have "0 < bit_length n" using n(1) by (subst bit_length.simps) simp
  then have "ilog2 r = int (bit_length n - 1)"
    using assms by (simp add: ilog2_def n_def)
  then have "pow2 (ilog2 r) = 2 ^ (bit_length n - 1)"
    by (simp add: pow2_def)
  also have "\<dots> = of_nat (2 ^ (bit_length n - 1))" by simp
  also have "\<dots> \<le> (of_nat n :: rat)"
    using bit_length_lower [OF n(1)] by (simp only: of_nat_le_iff)
  finally show ?thesis using n(2) by simp
qed

lemma round_mag_of_nat:
  assumes "n < 2 ^ 53"
  shows "round_mag (of_nat n) = of_nat n"
proof (cases "n = 0")
  case True
  then show ?thesis by (simp add: round_mag_def)
next
  case False
  define e where "e = max (ilog2 (of_nat n) - 52) (- 1074)"
  have "bit_length n \<le> 53" using assms by (rule bit_length_le)
  then have e0: "e \<le> 0" and e1: "- 1074 \<le> e"
    using False by (simp_all add: e_def ilog2_of_nat)
  have p: "pow2 e = 1 / 2 ^ nat (- e)"
    using e0 by (cases "e = 0") (simp_all add: pow2_def)
  have "of_nat n / pow2 e = (of_int (int n * 2 ^ nat (- e)) :: rat)"
    by (simp add: p)
  then have "round_half_even (of_nat n / pow2 e) = int n * 2 ^ nat (- e)"
    by (simp only: round_half_even_of_int)
  then have "of_int (round_half_even (of_nat n / pow2 e)) * pow2 e = (of_nat n :: rat)"
    by (simp add: p)
  then show ?thesis
    using False by (simp add: round_mag_def e_def Let_def)
qed

lemma fround_of_nat:
  assumes "n < 2 ^ 53"
  shows "fround s (of_nat n) = Finite s (of_nat n)"
proof -
  have "(of_nat n :: rat) < of_nat (2 ^ 53)"
    using assms by (simp only: of_nat_less_iff)
  also have "\<dots> < 2 ^ 1024" by simp
  finally have "\<not> (2 ^ 1024 \<le> (of_nat n :: rat))" by simp
  then show ?thesis
    by (simp add: fround_def round_mag_of_nat [OF assms])
qed

lemma round_mag_large:
  assumes "2 ^ 52 \<le> r"
  shows "2 ^ 52 \<le> round_mag r"
proof -
  have r1: "1 \<le> r" using assms by simp
  define n where "n = nat \<lfloor>r\<rfloor>"
  have "(2 :: int) ^ 52 \<le> \<lfloor>r\<rfloor>"
    using assms by (simp add: le_floor_iff)
  then have "2 ^ 52 \<le> n" by (simp add: n_def le_nat_iff)
  have "\<not> bit_length n \<le> 52"
  proof
    assume "bit_length n \<le> 52"
    then have "(2 :: nat) ^ bit_length n \<le> 2 ^ 52"
      by (intro power_increasing) simp_all
    then show False
      using bit_length_upper [of n] \<open>2 ^ 52 \<le> n\<close> by linarith
  qed
  then have il: "52 \<le> ilog2 r"
    using r1 by (simp add: ilog2_def n_def)
  define e where "e = ilog2 r - 52"
  have e0: "0 \<le> e" using il by (simp add: e_def)
  have emax: "max (ilog2 r - 52) (- 1074) = e" using e0 by (simp add: e_def)
  have pe: "pow2 e = 2 ^ nat e" using e0 by (simp add: pow2_def)
  have e1: "1 \<le> pow2 e" by (simp add: pe)
  have "pow2 e * 2 ^ 52 = 2 ^ (nat e + 52)" by (simp add: pe power_add)
  also have "nat e + 52 = nat (ilog2 r)" using il by (simp add: e_def)
  also have "2 ^ nat (ilog2 r) = pow2 (ilog2 r)" using il by (simp add: pow2_def)
  also have "\<dots> \<le> r" using r1 by (rule pow2_ilog2_le)
  finally have "2 ^ 52 \<le> r / pow2 e"
    using pow2_pos [of e] by (simp add: pos_le_divide_eq mult.commute)
  then have "(2 :: int) ^ 52 \<le> \<lfloor>r / pow2 e\<rfloor>"
    by (simp add: le_floor_iff)
  then have "(2 :: int) ^ 52 \<le> round_half_even (r / pow2 e)"
    using round_half_even_ge_floor [of "r / pow2 e"] by linarith
  then have "(2 :: rat) ^ 52 \<le> of_int (round_half_even (r / pow2 e))"
    by (metis of_int_le_iff of_int_numeral of_int_power)
  then have "2 ^ 52 * 1 \<le> of_int (round_half_even (r / pow2 e)) * pow2 e"
    using e1 by (intro mult_mono) simp_all
  moreover have "r \<noteq> 0" using r1 by simp
  ultimately show ?thesis
    by (simp add: round_mag_def emax Let_def)
qed

lemma round_mag_pos:
  assumes "1 \<le> r"
  shows "0 < round_mag r"
proof -
  define e where "e = max (ilog2 r - 52) (- 1074)"
  have "pow2 e \<le> r"
  proof (cases "ilog2 r - 52 \<le> - 1074")
    case True
    then have "e = - 1074" by (simp add: e_def)
    then have "pow2 e \<le> 1" by (simp add: pow2_def)
    then show ?thesis using assms by simp
  next
    case False
    then have "e = ilog2 r - 52" by (simp add: e_def)
    then have "pow2 e \<le> pow2 (ilog2 r)" by (intro pow2_mono) simp
    also have "\<dots> \<le> r" using assms by (rule pow2_ilog2_le)
    finally show ?thesis .
  qed
  then have "1 \<le> r / pow2 e"
    using pow2_pos [of e] by (simp add: pos_le_divide_eq)
  then have "1 \<le> \<lfloor>r / pow2 e\<rfloor>" by (simp add: le_floor_iff)
  then have "1 \<le> round_half_even (r / pow2 e)"
    using round_half_even_ge_floor [of "r / pow2 e"] by linarith
  then have "(0 :: rat) < of_int (round_half_even (r / pow2 e))" by simp
  then have "0 < of_int (round_half_even (r / pow2 e)) * pow2 e"
    using pow2_pos [of e] by (rule mult_pos_pos)
  moreover have "r \<noteq> 0" using assms by simp
  ultimately show ?thesis
    by (simp add: round_mag_def e_def Let_def)
qed

lemma jslt_fround_large:
  assumes "2 ^ 52 \<le> r" and "i < 2 ^ 52"
  shows "jslt (num_of_nat i) (fround False r)"
proof -
  have "(of_nat i :: rat) < of_nat (2 ^ 52)"
    using assms(2) by (simp only: of_nat_less_iff)
  then have "(of_nat i :: rat) < round_mag r"
    using round_mag_large [OF assms(1)] by simp
  then show ?thesis
    by (simp add: fround_def num_of_nat_def sval_def Let_def)
qed

lemma jslt_zero_fround:
  assumes "1 \<le> r"
  shows "jslt (Finite False 0) (fround s r) = (\<not> s)"
  using round_mag_pos [OF assms] by (simp add: fround_def Let_def sval_def)

lemma jssub_nat_unfold:
  assumes "b \<le> a" and "x = (of_nat (a - b) :: rat)"
  shows "jssub (num_of_nat a) (num_of_nat b) =
           (if x = 0 then Finite False 0 else fround False x)"
proof -
  have r: "sval False (of_nat a) + sval True (of_nat b) = x"
    using assms by (simp add: sval_def of_nat_diff)
  have x0: "0 \<le> x" using assms(2) by simp
  have "jssub (num_of_nat a) (num_of_nat b) =
          (if sval False (of_nat a) + sval True (of_nat b) = 0 then Finite False 0
           else fround (sval False (of_nat a) + sval True (of_nat b) < 0)
                  \<bar>sval False (of_nat a) + sval True (of_nat b)\<bar>)"
    by (simp add: jssub_def num_of_nat_def Let_def)
  also have "\<dots> = (if x = 0 then Finite False 0 else fround (x < 0) \<bar>x\<bar>)"
    by (simp only: r)
  also have "\<dots> = (if x = 0 then Finite False 0 else fround False x)"
    using x0 by simp
  finally show ?thesis .
qed

lemma jssub_nat:
  assumes "b \<le> a" and "a - b < 2 ^ 53"
  shows "jssub (num_of_nat a) (num_of_nat b) = Finite False (of_nat (a - b))"
proof -
  define x where "x = (of_nat (a - b) :: rat)"
  have f: "fround False x = Finite False x"
    unfolding x_def using assms(2) by (rule fround_of_nat)
  have "jssub (num_of_nat a) (num_of_nat b) = (if x = 0 then Finite False 0 else fround False x)"
    using assms(1) x_def by (rule jssub_nat_unfold)
  also have "\<dots> = Finite False x"
    by (simp add: f)
  finally show ?thesis by (simp only: x_def)
qed

lemma jssub_nat_large:
  assumes "2 ^ 53 \<le> a - b"
  shows "jssub (num_of_nat a) (num_of_nat b) = fround False (of_nat (a - b))"
proof -
  define x where "x = (of_nat (a - b) :: rat)"
  have ne: "a - b \<noteq> 0"
    using assms by (intro notI) simp
  then have ba: "b \<le> a" by simp
  have "x \<noteq> 0" using ne by (simp only: x_def of_nat_eq_0_iff) simp
  moreover have "jssub (num_of_nat a) (num_of_nat b) =
      (if x = 0 then Finite False 0 else fround False x)"
    using ba x_def by (rule jssub_nat_unfold)
  ultimately have "jssub (num_of_nat a) (num_of_nat b) = fround False x" by simp
  then show ?thesis by (simp only: x_def)
qed

text \<open>The test \<open>i < multiplier - 1\<close> and the start \<open>i + 1 - multiplier\<close> of the window,
  for a multiplier that is a positive integer and an index of an array.\<close>

lemma jslt_window:
  assumes "1 \<le> W" and "i < 2 ^ 32"
  shows "jslt (num_of_nat i) (jssub (num_of_nat W) (num_of_nat 1)) = (i < W - 1)"
proof (cases "W - 1 < 2 ^ 53")
  case True
  have "jssub (num_of_nat W) (num_of_nat 1) = Finite False (of_nat (W - 1))"
    using assms(1) True by (rule jssub_nat)
  then show ?thesis
    by (simp add: num_of_nat_def sval_def)
next
  case False
  then have big: "(2 :: nat) ^ 53 \<le> W - 1" by simp
  have "(of_nat ((2 :: nat) ^ 52) :: rat) \<le> of_nat (W - 1)"
    using big by (simp only: of_nat_le_iff) simp
  then have r: "(2 :: rat) ^ 52 \<le> of_nat (W - 1)" by simp
  have i: "i < 2 ^ 52" using assms(2) by simp
  have "jslt (num_of_nat i) (fround False (of_nat (W - 1)))"
    using r i by (rule jslt_fround_large)
  then have "jslt (num_of_nat i) (jssub (num_of_nat W) (num_of_nat 1))"
    by (simp only: jssub_nat_large [OF big])
  moreover have "i < W - 1"
    using big assms(2) by simp
  ultimately show ?thesis by simp
qed

lemma jssub_window:
  assumes "W \<le> i + 1" and "i < 2 ^ 32"
  shows "jssub (num_of_nat (i + 1)) (num_of_nat W) = Finite False (of_nat (i + 1 - W))"
proof -
  have "i + 1 - W < 2 ^ 53"
    using assms(2) by simp
  with assms(1) show ?thesis by (rule jssub_nat)
qed

lemma sval_int_diff:
  "sval (x < 0) (of_int \<bar>x\<bar>) + sval (\<not> y < 0) (of_int \<bar>y\<bar>) = (of_int (x - y) :: rat)"
  by (simp add: sval_def abs_if)

lemma date_difference_sign:
  "jslt (Finite False 0) (jssub (num_of_int x) (num_of_int y)) = (y < x)"
proof -
  define r where "r = (of_int (x - y) :: rat)"
  have unfold: "jssub (num_of_int x) (num_of_int y) =
      (if r = 0 then Finite ((x < 0) \<and> \<not> y < 0) 0 else fround (r < 0) \<bar>r\<bar>)"
    unfolding r_def sval_int_diff [symmetric]
    by (simp add: jssub_def num_of_int_def Let_def)
  show ?thesis
  proof (cases "x = y")
    case True
    then have "r = 0" by (simp add: r_def)
    then have "jssub (num_of_int x) (num_of_int y) = Finite ((x < 0) \<and> \<not> y < 0) 0"
      by (simp add: unfold)
    then show ?thesis using True by (simp add: sval_def)
  next
    case False
    then have r0: "r \<noteq> 0" by (simp add: r_def)
    have "1 \<le> \<bar>x - y\<bar>" using False by simp
    then have "(1 :: rat) \<le> of_int \<bar>x - y\<bar>" by (simp only: of_int_1_le_iff)
    then have "1 \<le> \<bar>r\<bar>" by (simp add: r_def)
    then have "jslt (Finite False 0) (fround (r < 0) \<bar>r\<bar>) = (\<not> r < 0)"
      by (rule jslt_zero_fround)
    moreover have "(\<not> r < 0) = (y < x)"
      using False by (auto simp add: r_def not_less)
    moreover have "jssub (num_of_int x) (num_of_int y) = fround (r < 0) \<bar>r\<bar>"
      using r0 by (simp add: unfold)
    ultimately show ?thesis by (simp only:)
  qed
qed

subsection \<open>\<open>pipe\<close>\<close>

lemma pipe_Nil: "pipe [] x = Inr x"
  by (simp add: pipe_def)

lemma foldl_error:
  "foldl (\<lambda>y f. case y of Inl e \<Rightarrow> Inl e | Inr v \<Rightarrow> f v) (Inl e) fns = Inl e"
  by (induction fns) simp_all

lemma pipe_Cons:
  "pipe (f # fns) x = (case f x of Inl e \<Rightarrow> Inl e | Inr y \<Rightarrow> pipe fns y)"
  by (cases "f x") (simp_all add: pipe_def foldl_error)

lemma enrich_prepare:
  "enrich dp arg csv =
     prepareData arg
       (sortDataByDate dp DATE_CELL
          (rowsToObjects (drop 1 csv) (case csv of [] \<Rightarrow> [] | h # _ \<Rightarrow> h)))"
  by (simp add: enrich_def Let_def pipe_Cons pipe_Nil split: sum.splits)

subsection \<open>The volume stage\<close>

lemma percent_change_strings:
  "percent_change edge (Some (Str c)) (Some (Str p)) =
     Inr (if \<not> edge \<or> c = ''-'' \<or> p = ''-'' then Str ''-''
          else Num (spec_percentage_change (parseFloat (strip_commas c))
                      (parseFloat (strip_commas p))))"
  by (simp add: percent_change_def NOT_APPLICABLE_def spec_percentage_change_def Let_def)


lemma volume_columns_dep:
  assumes "agree_on {''Volume''} d d'" and "i < length d"
  shows "volume_columns d i = volume_columns d' i"
proof -
  have "(d ! i) ''Volume'' = (d' ! i) ''Volume''"
    using assms by (simp add: agree_on_def)
  moreover have "(d ! (i - 1)) ''Volume'' = (d' ! (i - 1)) ''Volume''"
    using assms by (simp add: agree_on_def)
  ultimately show ?thesis
    by (simp add: volume_columns_def)
qed

lemma volume_columns_frame:
  assumes "volume_columns d i = Inr cols"
  shows "dom cols \<inter> {''Volume''} = {}"
  using assms by (auto simp: volume_columns_def Let_def split: sum.splits)

lemma volume_stage:
  assumes "percentagesChangeInVolume data = Inr data'"
  shows "length data' = length data \<and>
     (\<forall>i < length data. \<exists>v.
        percent_change (0 \<le> int i - 1) ((data ! i) ''Volume'') ((data ! (i - 1)) ''Volume'') = Inr v
        \<and> data' ! i = (data ! i)(''Daily Change in Volume'' \<mapsto> v))"
proof -
  have res: "length data' = length data
     \<and> (\<forall>i \<in> set [0..<length data]. \<exists>cols. volume_columns data i = Inr cols
            \<and> data' ! i = (data ! i) ++ cols)
     \<and> (\<forall>j. j \<notin> set [0..<length data] \<longrightarrow> data' ! j = data ! j)"
  proof (rule map_assign_result [where K = "{''Volume''}" and ?d0.0 = data])
    show "\<And>d d' i. agree_on {''Volume''} d d' \<Longrightarrow> i < length d \<Longrightarrow>
            volume_columns d i = volume_columns d' i"
      by (rule volume_columns_dep)
    show "\<And>d i cols. volume_columns d i = Inr cols \<Longrightarrow> dom cols \<inter> {''Volume''} = {}"
      by (rule volume_columns_frame)
    show "agree_on {''Volume''} data data" by (rule agree_on_refl)
    show "distinct [0..<length data]" by simp
    show "\<forall>i \<in> set [0..<length data]. i < length data" by simp
    show "map_assign volume_columns [0..<length data] data = Inr data'"
      using assms by (simp add: percentagesChangeInVolume_def)
  qed
  have "\<exists>v. percent_change (0 \<le> int i - 1) ((data ! i) ''Volume'') ((data ! (i - 1)) ''Volume'') = Inr v
        \<and> data' ! i = (data ! i)(''Daily Change in Volume'' \<mapsto> v)"
    if "i < length data" for i
  proof -
    have "i \<in> set [0..<length data]" using that by simp
    then obtain cols where cols: "volume_columns data i = Inr cols"
      and row: "data' ! i = (data ! i) ++ cols"
      using res by blast
    from cols obtain v where
      "percent_change (0 \<le> int i - 1) ((data ! i) ''Volume'') ((data ! (i - 1)) ''Volume'') = Inr v"
      "cols = [''Daily Change in Volume'' \<mapsto> v]"
      by (auto simp: volume_columns_def Let_def split: sum.splits)
    then show ?thesis using row by auto
  qed
  then show ?thesis using res by blast
qed

lemma volume_stage_total:
  assumes "\<forall>i < length data. \<exists>v.
     percent_change (0 \<le> int i - 1) ((data ! i) ''Volume'') ((data ! (i - 1)) ''Volume'') = Inr v"
  shows "\<exists>data'. percentagesChangeInVolume data = Inr data'"
proof -
  have "\<exists>d'. map_assign volume_columns [0..<length data] data = Inr d'"
  proof (rule map_assign_total [where K = "{''Volume''}" and ?d0.0 = data])
    show "\<And>d d' i. agree_on {''Volume''} d d' \<Longrightarrow> i < length d \<Longrightarrow>
            volume_columns d i = volume_columns d' i"
      by (rule volume_columns_dep)
    show "\<And>d i cols. volume_columns d i = Inr cols \<Longrightarrow> dom cols \<inter> {''Volume''} = {}"
      by (rule volume_columns_frame)
    show "agree_on {''Volume''} data data" by (rule agree_on_refl)
    show "\<forall>i \<in> set [0..<length data]. i < length data" by simp
    show "\<forall>i \<in> set [0..<length data]. \<exists>cols. volume_columns data i = Inr cols"
      using assms by (auto simp: volume_columns_def Let_def)
  qed
  then show ?thesis by (simp add: percentagesChangeInVolume_def)
qed

lemma volume_stage_frame:
  assumes "percentagesChangeInVolume data = Inr out" and "i < length data"
  shows "(out ! i) ''Daily Change in Volume'' \<noteq> None
     \<and> (\<forall>k. k \<noteq> ''Daily Change in Volume'' \<longrightarrow> (out ! i) k = (data ! i) k)"
proof -
  obtain v where "out ! i = (data ! i)(''Daily Change in Volume'' \<mapsto> v)"
    using volume_stage [OF assms(1)] assms(2) by blast
  then show ?thesis by simp
qed

lemma percent_change_error:
  "percent_change edge cur prev = Inl e \<longleftrightarrow> e = TypeError \<and> edge \<and> unreadable cur prev"
  by (auto simp: percent_change_def unreadable_def is_string_def NOT_APPLICABLE_def Let_def
      split: option.splits jsval.splits)

lemma percent_change_returns:
  "(\<exists>v. percent_change edge cur prev = Inr v) \<longleftrightarrow> \<not> (edge \<and> unreadable cur prev)"
proof (cases "percent_change edge cur prev")
  case (Inl e)
  then show ?thesis using percent_change_error [of edge cur prev e] by simp
next
  case (Inr v)
  have "\<not> (edge \<and> unreadable cur prev)"
  proof
    assume "edge \<and> unreadable cur prev"
    then have "percent_change edge cur prev = Inl TypeError"
      by (simp add: percent_change_error)
    then show False using Inr by simp
  qed
  then show ?thesis using Inr by simp
qed

lemma volume_stage_error:
  assumes "percentagesChangeInVolume data = Inl e"
  shows "\<exists>i < length data.
     percent_change (0 \<le> int i - 1) ((data ! i) ''Volume'') ((data ! (i - 1)) ''Volume'') = Inl e"
proof -
  have "\<exists>i \<in> set [0..<length data]. volume_columns data i = Inl e"
  proof (rule map_assign_error [where K = "{''Volume''}" and ?d0.0 = data and d = data])
    show "\<And>d d' i. agree_on {''Volume''} d d' \<Longrightarrow> i < length d \<Longrightarrow>
            volume_columns d i = volume_columns d' i"
      by (rule volume_columns_dep)
    show "\<And>d i cols. volume_columns d i = Inr cols \<Longrightarrow> dom cols \<inter> {''Volume''} = {}"
      by (rule volume_columns_frame)
    show "agree_on {''Volume''} data data" by (rule agree_on_refl)
    show "\<forall>i \<in> set [0..<length data]. i < length data" by simp
    show "map_assign volume_columns [0..<length data] data = Inl e"
      using assms by (simp add: percentagesChangeInVolume_def)
  qed
  then obtain i where i: "i < length data" and "volume_columns data i = Inl e"
    by auto
  then have "percent_change (0 \<le> int i - 1) ((data ! i) ''Volume'') ((data ! (i - 1)) ''Volume'') = Inl e"
    by (auto simp: volume_columns_def Let_def split: sum.splits)
  with i show ?thesis by blast
qed

lemma volume_stage_throws:
  "(if \<exists>i < length data. 0 < i \<and> unreadable ((data ! i) ''Volume'') ((data ! (i - 1)) ''Volume'')
    then percentagesChangeInVolume data = Inl TypeError
    else \<exists>out. percentagesChangeInVolume data = Inr out)"
proof (cases "\<exists>i < length data. 0 < i \<and> unreadable ((data ! i) ''Volume'') ((data ! (i - 1)) ''Volume'')")
  case True
  then obtain i where i: "i < length data" "0 < i"
    and bad: "unreadable ((data ! i) ''Volume'') ((data ! (i - 1)) ''Volume'')"
    by blast
  have edge: "0 \<le> int i - 1" using i(2) by simp
  have no: "\<not> (\<exists>v. percent_change (0 \<le> int i - 1) ((data ! i) ''Volume'')
      ((data ! (i - 1)) ''Volume'') = Inr v)"
    using edge bad by (simp only: percent_change_returns) simp
  show ?thesis
  proof (cases "percentagesChangeInVolume data")
    case (Inl e)
    then obtain j where "percent_change (0 \<le> int j - 1) ((data ! j) ''Volume'')
        ((data ! (j - 1)) ''Volume'') = Inl e"
      using volume_stage_error by blast
    then have "e = TypeError" by (simp add: percent_change_error)
    then show ?thesis using Inl True by simp
  next
    case (Inr out)
    then have "\<exists>v. percent_change (0 \<le> int i - 1) ((data ! i) ''Volume'')
        ((data ! (i - 1)) ''Volume'') = Inr v"
      using volume_stage [OF Inr] i(1) by blast
    then show ?thesis using no by simp
  qed
next
  case False
  have "\<forall>i < length data. \<exists>v.
     percent_change (0 \<le> int i - 1) ((data ! i) ''Volume'') ((data ! (i - 1)) ''Volume'') = Inr v"
  proof (intro allI impI)
    fix i assume i: "i < length data"
    have "\<not> ((0 \<le> int i - 1) \<and> unreadable ((data ! i) ''Volume'') ((data ! (i - 1)) ''Volume''))"
      using False i by auto
    then show "\<exists>v. percent_change (0 \<le> int i - 1) ((data ! i) ''Volume'')
        ((data ! (i - 1)) ''Volume'') = Inr v"
      by (simp only: percent_change_returns) simp
  qed
  then have "\<exists>out. percentagesChangeInVolume data = Inr out"
    by (rule volume_stage_total)
  then show ?thesis by (simp only: False if_False)
qed

subsection \<open>The price stage\<close>

lemma price_reduce_other:
  "price_reduce d i keys accum = Inr cols \<Longrightarrow>
   \<forall>k \<in> set keys. name \<noteq> k @ '' - Daily Percentage Change'' \<Longrightarrow> cols name = accum name"
proof (induction keys arbitrary: accum)
  case Nil
  then show ?case by simp
next
  case (Cons key keys)
  from Cons.prems(1) obtain v where
    "price_reduce d i keys (accum(key @ '' - Daily Percentage Change'' \<mapsto> v)) = Inr cols"
    by (auto split: sum.splits)
  then have "cols name = (accum(key @ '' - Daily Percentage Change'' \<mapsto> v)) name"
    using Cons.IH Cons.prems(2) by simp
  then show ?case using Cons.prems(2) by simp
qed

lemma price_reduce_lookup:
  "price_reduce d i keys accum = Inr cols \<Longrightarrow> k \<in> set keys \<Longrightarrow>
   \<exists>v. percent_change (0 < int i - 1) ((d ! i) k) ((d ! (i - 1)) k) = Inr v
       \<and> cols (k @ '' - Daily Percentage Change'') = Some v"
proof (induction keys arbitrary: accum)
  case Nil
  then show ?case by simp
next
  case (Cons key keys)
  from Cons.prems(1) obtain v where
    v: "percent_change (0 < int i - 1) ((d ! i) key) ((d ! (i - 1)) key) = Inr v"
    and rest: "price_reduce d i keys (accum(key @ '' - Daily Percentage Change'' \<mapsto> v)) = Inr cols"
    by (auto split: sum.splits)
  show ?case
  proof (cases "k \<in> set keys")
    case True
    then show ?thesis using Cons.IH [OF rest] by simp
  next
    case False
    then have k: "k = key" using Cons.prems(2) by simp
    have "\<forall>k' \<in> set keys. k @ '' - Daily Percentage Change'' \<noteq> k' @ '' - Daily Percentage Change''"
      using False by auto
    then have "cols (k @ '' - Daily Percentage Change'')
        = (accum(key @ '' - Daily Percentage Change'' \<mapsto> v)) (k @ '' - Daily Percentage Change'')"
      using price_reduce_other [OF rest] by blast
    then show ?thesis using v k by simp
  qed
qed

lemma price_reduce_total:
  "\<forall>k \<in> set keys. \<exists>v. percent_change (0 < int i - 1) ((d ! i) k) ((d ! (i - 1)) k) = Inr v \<Longrightarrow>
   \<exists>cols. price_reduce d i keys accum = Inr cols"
proof (induction keys arbitrary: accum)
  case Nil
  then show ?case by simp
next
  case (Cons key keys)
  then obtain v where "percent_change (0 < int i - 1) ((d ! i) key) ((d ! (i - 1)) key) = Inr v"
    by auto
  then show ?case using Cons by simp
qed

lemma price_reduce_agree:
  "\<forall>k \<in> set keys. (d ! i) k = (d' ! i) k \<and> (d ! (i - 1)) k = (d' ! (i - 1)) k \<Longrightarrow>
   price_reduce d i keys accum = price_reduce d' i keys accum"
  by (induction keys arbitrary: accum) (simp_all split: sum.splits)

lemma price_columns_dep:
  assumes "agree_on (set VALUE_CELLS) d d'" and "i < length d"
  shows "price_columns d i = price_columns d' i"
proof -
  have "\<forall>k \<in> set VALUE_CELLS. (d ! i) k = (d' ! i) k \<and> (d ! (i - 1)) k = (d' ! (i - 1)) k"
    using assms by (simp add: agree_on_def)
  then show ?thesis
    unfolding price_columns_def Let_def VALUE_CELLS_def by (rule price_reduce_agree)
qed

lemma price_columns_frame:
  assumes "price_columns d i = Inr cols"
  shows "dom cols \<inter> set VALUE_CELLS = {}"
proof -
  have "cols name = None" if "name \<in> set VALUE_CELLS" for name
  proof -
    have "\<forall>k \<in> set [''Open'', ''High'', ''Low'', ''Close''].
            name \<noteq> k @ '' - Daily Percentage Change''"
      using that by (auto simp: VALUE_CELLS_def)
    then have "cols name = Map.empty name"
      using assms price_reduce_other unfolding price_columns_def Let_def by blast
    then show ?thesis by simp
  qed
  then show ?thesis by auto
qed

lemma price_stage:
  assumes "percentagesChangeInPrices data = Inr data'"
  shows "length data' = length data \<and>
     (\<forall>i < length data. \<exists>cols.
        price_reduce data i [''Open'', ''High'', ''Low'', ''Close''] Map.empty = Inr cols
        \<and> data' ! i = (data ! i) ++ cols)"
proof -
  have res: "length data' = length data
     \<and> (\<forall>i \<in> set [0..<length data]. \<exists>cols. price_columns data i = Inr cols
            \<and> data' ! i = (data ! i) ++ cols)
     \<and> (\<forall>j. j \<notin> set [0..<length data] \<longrightarrow> data' ! j = data ! j)"
  proof (rule map_assign_result [where K = "set VALUE_CELLS" and ?d0.0 = data])
    show "\<And>d d' i. agree_on (set VALUE_CELLS) d d' \<Longrightarrow> i < length d \<Longrightarrow>
            price_columns d i = price_columns d' i"
      by (rule price_columns_dep)
    show "\<And>d i cols. price_columns d i = Inr cols \<Longrightarrow> dom cols \<inter> set VALUE_CELLS = {}"
      by (rule price_columns_frame)
    show "agree_on (set VALUE_CELLS) data data" by (rule agree_on_refl)
    show "distinct [0..<length data]" by simp
    show "\<forall>i \<in> set [0..<length data]. i < length data" by simp
    show "map_assign price_columns [0..<length data] data = Inr data'"
      using assms by (simp add: percentagesChangeInPrices_def)
  qed
  then show ?thesis
    by (simp add: price_columns_def)
qed

lemma price_stage_total:
  assumes "\<forall>i < length data. \<forall>k \<in> set [''Open'', ''High'', ''Low'', ''Close'']. \<exists>v.
     percent_change (0 < int i - 1) ((data ! i) k) ((data ! (i - 1)) k) = Inr v"
  shows "\<exists>data'. percentagesChangeInPrices data = Inr data'"
proof -
  have "\<exists>d'. map_assign price_columns [0..<length data] data = Inr d'"
  proof (rule map_assign_total [where K = "set VALUE_CELLS" and ?d0.0 = data])
    show "\<And>d d' i. agree_on (set VALUE_CELLS) d d' \<Longrightarrow> i < length d \<Longrightarrow>
            price_columns d i = price_columns d' i"
      by (rule price_columns_dep)
    show "\<And>d i cols. price_columns d i = Inr cols \<Longrightarrow> dom cols \<inter> set VALUE_CELLS = {}"
      by (rule price_columns_frame)
    show "agree_on (set VALUE_CELLS) data data" by (rule agree_on_refl)
    show "\<forall>i \<in> set [0..<length data]. i < length data" by simp
    show "\<forall>i \<in> set [0..<length data]. \<exists>cols. price_columns data i = Inr cols"
    proof
      fix i assume "i \<in> set [0..<length data]"
      then have "i < length data" by simp
      then have "\<forall>k \<in> set [''Open'', ''High'', ''Low'', ''Close'']. \<exists>v.
         percent_change (0 < int i - 1) ((data ! i) k) ((data ! (i - 1)) k) = Inr v"
        using assms by blast
      then show "\<exists>cols. price_columns data i = Inr cols"
        unfolding price_columns_def Let_def by (rule price_reduce_total)
    qed
  qed
  then show ?thesis by (simp add: percentagesChangeInPrices_def)
qed

lemma price_stage_frame:
  assumes "percentagesChangeInPrices data = Inr out" and "i < length data"
  shows "(\<forall>c \<in> set VALUE_CELLS. (out ! i) (c @ '' - Daily Percentage Change'') \<noteq> None)
     \<and> (\<forall>k. (\<forall>c \<in> set VALUE_CELLS. k \<noteq> c @ '' - Daily Percentage Change'') \<longrightarrow>
            (out ! i) k = (data ! i) k)"
proof -
  obtain cols where cols: "price_reduce data i [''Open'', ''High'', ''Low'', ''Close''] Map.empty = Inr cols"
    and row: "out ! i = (data ! i) ++ cols"
    using price_stage [OF assms(1)] assms(2) by blast
  have "(out ! i) (c @ '' - Daily Percentage Change'') \<noteq> None" if "c \<in> set VALUE_CELLS" for c
  proof -
    have "c \<in> set [''Open'', ''High'', ''Low'', ''Close'']"
      using that by (simp add: VALUE_CELLS_def)
    then obtain v where "cols (c @ '' - Daily Percentage Change'') = Some v"
      using price_reduce_lookup [OF cols] by blast
    then show ?thesis by (simp add: row)
  qed
  moreover have "(out ! i) k = (data ! i) k"
    if "\<forall>c \<in> set VALUE_CELLS. k \<noteq> c @ '' - Daily Percentage Change''" for k
  proof -
    have "\<forall>c \<in> set [''Open'', ''High'', ''Low'', ''Close'']. k \<noteq> c @ '' - Daily Percentage Change''"
      using that by (simp add: VALUE_CELLS_def)
    then have "cols k = Map.empty k"
      using price_reduce_other [OF cols] by blast
    then show ?thesis by (simp add: row map_add_def)
  qed
  ultimately show ?thesis by blast
qed

lemma price_reduce_error:
  "price_reduce d i keys accum = Inl e \<Longrightarrow>
   \<exists>k \<in> set keys. percent_change (0 < int i - 1) ((d ! i) k) ((d ! (i - 1)) k) = Inl e"
proof (induction keys arbitrary: accum)
  case Nil
  then show ?case by simp
next
  case (Cons key keys)
  show ?case
  proof (cases "percent_change (0 < int i - 1) ((d ! i) key) ((d ! (i - 1)) key)")
    case (Inl e')
    then have "e' = e" using Cons.prems by simp
    then show ?thesis using Inl by simp
  next
    case (Inr v)
    then have "price_reduce d i keys (accum(key @ '' - Daily Percentage Change'' \<mapsto> v)) = Inl e"
      using Cons.prems by simp
    then show ?thesis using Cons.IH by auto
  qed
qed

lemma price_stage_error:
  assumes "percentagesChangeInPrices data = Inl e"
  shows "\<exists>i < length data. \<exists>k \<in> set VALUE_CELLS.
     percent_change (0 < int i - 1) ((data ! i) k) ((data ! (i - 1)) k) = Inl e"
proof -
  have "\<exists>i \<in> set [0..<length data]. price_columns data i = Inl e"
  proof (rule map_assign_error [where K = "set VALUE_CELLS" and ?d0.0 = data and d = data])
    show "\<And>d d' i. agree_on (set VALUE_CELLS) d d' \<Longrightarrow> i < length d \<Longrightarrow>
            price_columns d i = price_columns d' i"
      by (rule price_columns_dep)
    show "\<And>d i cols. price_columns d i = Inr cols \<Longrightarrow> dom cols \<inter> set VALUE_CELLS = {}"
      by (rule price_columns_frame)
    show "agree_on (set VALUE_CELLS) data data" by (rule agree_on_refl)
    show "\<forall>i \<in> set [0..<length data]. i < length data" by simp
    show "map_assign price_columns [0..<length data] data = Inl e"
      using assms by (simp add: percentagesChangeInPrices_def)
  qed
  then obtain i where i: "i < length data" and "price_columns data i = Inl e"
    by auto
  then have "price_reduce data i [''Open'', ''High'', ''Low'', ''Close''] Map.empty = Inl e"
    by (simp add: price_columns_def)
  then have "\<exists>k \<in> set [''Open'', ''High'', ''Low'', ''Close''].
      percent_change (0 < int i - 1) ((data ! i) k) ((data ! (i - 1)) k) = Inl e"
    by (rule price_reduce_error)
  then have "\<exists>k \<in> set VALUE_CELLS.
      percent_change (0 < int i - 1) ((data ! i) k) ((data ! (i - 1)) k) = Inl e"
    by (simp only: VALUE_CELLS_def)
  with i show ?thesis by blast
qed

lemma price_stage_throws:
  "(if \<exists>i < length data. 1 < i \<and>
         (\<exists>k \<in> set VALUE_CELLS. unreadable ((data ! i) k) ((data ! (i - 1)) k))
    then percentagesChangeInPrices data = Inl TypeError
    else \<exists>out. percentagesChangeInPrices data = Inr out)"
proof (cases "\<exists>i < length data. 1 < i \<and>
         (\<exists>k \<in> set VALUE_CELLS. unreadable ((data ! i) k) ((data ! (i - 1)) k))")
  case True
  then obtain i k where i: "i < length data" "1 < i" and k: "k \<in> set VALUE_CELLS"
    and bad: "unreadable ((data ! i) k) ((data ! (i - 1)) k)"
    by blast
  have edge: "0 < int i - 1" using i(2) by simp
  have no: "\<not> (\<exists>v. percent_change (0 < int i - 1) ((data ! i) k) ((data ! (i - 1)) k) = Inr v)"
    using edge bad by (simp only: percent_change_returns) simp
  show ?thesis
  proof (cases "percentagesChangeInPrices data")
    case (Inl e)
    then obtain j k' where "percent_change (0 < int j - 1) ((data ! j) k') ((data ! (j - 1)) k') = Inl e"
      using price_stage_error by blast
    then have "e = TypeError" by (simp add: percent_change_error)
    then show ?thesis using Inl True by simp
  next
    case (Inr out)
    then obtain cols where
      cols: "price_reduce data i [''Open'', ''High'', ''Low'', ''Close''] Map.empty = Inr cols"
      using price_stage [OF Inr] i(1) by blast
    have "k \<in> set [''Open'', ''High'', ''Low'', ''Close'']"
      using k by (simp add: VALUE_CELLS_def)
    then have "\<exists>v. percent_change (0 < int i - 1) ((data ! i) k) ((data ! (i - 1)) k) = Inr v"
      using price_reduce_lookup [OF cols] by blast
    then show ?thesis using no by simp
  qed
next
  case False
  have "\<forall>i < length data. \<forall>k \<in> set [''Open'', ''High'', ''Low'', ''Close'']. \<exists>v.
     percent_change (0 < int i - 1) ((data ! i) k) ((data ! (i - 1)) k) = Inr v"
  proof (intro allI impI ballI)
    fix i k assume i: "i < length data" and "k \<in> set [''Open'', ''High'', ''Low'', ''Close'']"
    then have k: "k \<in> set VALUE_CELLS" by (simp add: VALUE_CELLS_def)
    have "\<not> ((0 < int i - 1) \<and> unreadable ((data ! i) k) ((data ! (i - 1)) k))"
      using False i k by auto
    then show "\<exists>v. percent_change (0 < int i - 1) ((data ! i) k) ((data ! (i - 1)) k) = Inr v"
      by (simp only: percent_change_returns) simp
  qed
  then have "\<exists>out. percentagesChangeInPrices data = Inr out"
    by (rule price_stage_total)
  then show ?thesis by (simp only: False if_False)
qed

subsection \<open>The moving-average stage\<close>

lemma array_slice_nat:
  assumes "k \<le> e" and "e \<le> length xs"
  shows "array_slice (Finite False (of_nat k)) e xs = take (e - k) (drop k xs)"
proof -
  have "slice_index (Finite False (of_nat k)) (length xs) = k"
    using assms by (simp add: slice_index_def)
  moreover have "min e (length xs) = e"
    using assms(2) by simp
  ultimately show ?thesis
    by (simp only: array_slice_def Let_def)
qed

lemma array_slice_map: "map f (array_slice start e xs) = array_slice start e (map f xs)"
  by (simp add: array_slice_def Let_def take_map drop_map)

lemma foldl_cells:
  "foldl (\<lambda>cellAccum row. jsadd cellAccum (to_number (row cell))) z rows
     = foldl jsadd z (map (\<lambda>row. to_number (row cell)) rows)"
  by (induction rows arbitrary: z) simp_all

lemma average_cell_dep:
  assumes "agree_on (set VALUE_CELLS) d d'" and "cell \<in> set VALUE_CELLS"
  shows "average_cell m d i cell = average_cell m d' i cell"
proof -
  have "map (\<lambda>row. to_number (row cell)) d = map (\<lambda>row. to_number (row cell)) d'"
    using assms by (auto simp: agree_on_def list_eq_iff_nth_eq)
  then have "map (\<lambda>row. to_number (row cell)) (array_slice s e d)
      = map (\<lambda>row. to_number (row cell)) (array_slice s e d')" for s e
    by (simp only: array_slice_map)
  then show ?thesis
    by (simp only: average_cell_def foldl_cells)
qed

lemma average_columns_dep:
  assumes "agree_on (set VALUE_CELLS) d d'" and "i < length d"
  shows "average_columns m d i = average_columns m d' i"
proof -
  have "average_cell m d i cell = average_cell m d' i cell" if "cell \<in> set VALUE_CELLS" for cell
    using assms(1) that by (rule average_cell_dep)
  then show ?thesis
    by (simp add: average_columns_def VALUE_CELLS_def)
qed

lemma average_name_fresh: "average_name cell m \<noteq> cell"
  by (simp add: average_name_def)

lemma average_name_inj: "average_name c m = average_name c' m \<longleftrightarrow> c = c'"
  by (simp add: average_name_def)

lemma average_columns_lookup:
  "\<exists>cols. average_columns m d i = Inr cols \<and>
     (\<forall>cell \<in> set VALUE_CELLS. cols (average_name cell m) = Some (average_cell m d i cell)) \<and>
     dom cols = (\<lambda>cell. average_name cell m) ` set VALUE_CELLS"
  by (auto simp add: average_columns_def VALUE_CELLS_def average_name_inj)

lemma average_name_not_value:
  assumes "c \<in> set VALUE_CELLS"
  shows "average_name c m \<notin> set VALUE_CELLS"
  using assms by (auto simp: VALUE_CELLS_def average_name_def)

lemma average_columns_frame:
  assumes "average_columns m d i = Inr cols"
  shows "dom cols \<inter> set VALUE_CELLS = {}"
proof -
  have "dom cols = (\<lambda>cell. average_name cell m) ` set VALUE_CELLS"
    using assms average_columns_lookup [of m d i] by auto
  then show ?thesis
    using average_name_not_value by auto
qed

lemma average_stage:
  "\<exists>data'. movingAverage m data = Inr data' \<and> length data' = length data \<and>
     (\<forall>i < length data. \<exists>cols. average_columns m data i = Inr cols
        \<and> data' ! i = (data ! i) ++ cols)"
proof -
  have "\<exists>d'. map_assign (average_columns m) [0..<length data] data = Inr d'"
  proof (rule map_assign_total [where K = "set VALUE_CELLS" and ?d0.0 = data])
    show "\<And>d d' i. agree_on (set VALUE_CELLS) d d' \<Longrightarrow> i < length d \<Longrightarrow>
            average_columns m d i = average_columns m d' i"
      by (rule average_columns_dep)
    show "\<And>d i cols. average_columns m d i = Inr cols \<Longrightarrow> dom cols \<inter> set VALUE_CELLS = {}"
      by (rule average_columns_frame)
    show "agree_on (set VALUE_CELLS) data data" by (rule agree_on_refl)
    show "\<forall>i \<in> set [0..<length data]. i < length data" by simp
    show "\<forall>i \<in> set [0..<length data]. \<exists>cols. average_columns m data i = Inr cols"
      by (simp add: average_columns_def)
  qed
  then obtain data' where run: "map_assign (average_columns m) [0..<length data] data = Inr data'"
    by blast
  have res: "length data' = length data
     \<and> (\<forall>i \<in> set [0..<length data]. \<exists>cols. average_columns m data i = Inr cols
            \<and> data' ! i = (data ! i) ++ cols)
     \<and> (\<forall>j. j \<notin> set [0..<length data] \<longrightarrow> data' ! j = data ! j)"
  proof (rule map_assign_result [where K = "set VALUE_CELLS" and ?d0.0 = data])
    show "\<And>d d' i. agree_on (set VALUE_CELLS) d d' \<Longrightarrow> i < length d \<Longrightarrow>
            average_columns m d i = average_columns m d' i"
      by (rule average_columns_dep)
    show "\<And>d i cols. average_columns m d i = Inr cols \<Longrightarrow> dom cols \<inter> set VALUE_CELLS = {}"
      by (rule average_columns_frame)
    show "agree_on (set VALUE_CELLS) data data" by (rule agree_on_refl)
    show "distinct [0..<length data]" by simp
    show "\<forall>i \<in> set [0..<length data]. i < length data" by simp
    show "map_assign (average_columns m) [0..<length data] data = Inr data'"
      by (rule run)
  qed
  then show ?thesis
    using run by (simp add: movingAverage_def)
qed

lemma average_stage_frame:
  assumes "movingAverage m data = Inr out" and "i < length data"
  shows "(\<forall>c \<in> set VALUE_CELLS. (out ! i) (average_name c m) = Some (average_cell m data i c))
     \<and> (\<forall>k. (\<forall>c \<in> set VALUE_CELLS. k \<noteq> average_name c m) \<longrightarrow> (out ! i) k = (data ! i) k)"
proof -
  obtain cols where cols: "average_columns m data i = Inr cols"
    and row: "out ! i = (data ! i) ++ cols"
    using average_stage [of m data] assms by auto
  obtain cols' where c': "average_columns m data i = Inr cols'"
    and look: "\<forall>cell \<in> set VALUE_CELLS. cols' (average_name cell m) = Some (average_cell m data i cell)"
    and dom: "dom cols' = (\<lambda>cell. average_name cell m) ` set VALUE_CELLS"
    using average_columns_lookup [of m data i] by blast
  have eq: "cols' = cols" using cols c' by simp
  have "(out ! i) (average_name c m) = Some (average_cell m data i c)" if "c \<in> set VALUE_CELLS" for c
    using look that by (simp add: row eq)
  moreover have "(out ! i) k = (data ! i) k" if "\<forall>c \<in> set VALUE_CELLS. k \<noteq> average_name c m" for k
  proof -
    have "k \<notin> dom cols" using that dom eq by auto
    then show ?thesis by (auto simp add: row map_add_def split: option.splits)
  qed
  ultimately show ?thesis by blast
qed

lemma average_cell_value:
  assumes "1 \<le> W" and "i < length data" and "length data \<le> 2 ^ 32"
  shows "average_cell (num_of_nat W) data i cell =
           Str (if i < W - 1 then ''-''
                else numberToCurrencyValue
                       (jsdiv (foldl jsadd (Finite False 0)
                                 (map (\<lambda>row. to_number (row cell))
                                    (take W (drop (i + 1 - W) data))))
                          (num_of_nat W)))"
proof -
  have i32: "i < 2 ^ 32" using assms(2,3) by simp
  have test: "jslt (num_of_nat i) (jssub (num_of_nat W) (num_of_nat 1)) = (i < W - 1)"
    using assms(1) i32 by (rule jslt_window)
  show ?thesis
  proof (cases "i < W - 1")
    case True
    then show ?thesis
      by (simp only: average_cell_def test NOT_APPLICABLE_def Let_def if_True)
  next
    case False
    then have w: "W \<le> i + 1" by simp
    have start: "jssub (num_of_nat (i + 1)) (num_of_nat W) = Finite False (of_nat (i + 1 - W))"
      using w i32 by (rule jssub_window)
    have "array_slice (Finite False (of_nat (i + 1 - W))) (i + 1) data
            = take (i + 1 - (i + 1 - W)) (drop (i + 1 - W) data)"
      using assms(2) by (intro array_slice_nat) simp_all
    also have "i + 1 - (i + 1 - W) = W" using w by simp
    finally have window: "array_slice (jssub (num_of_nat (i + 1)) (num_of_nat W)) (i + 1) data
            = take W (drop (i + 1 - W) data)"
      by (simp only: start)
    show ?thesis
      using False by (simp only: average_cell_def test window foldl_cells Let_def if_False)
  qed
qed






subsection \<open>The stages in sequence\<close>








subsection \<open>The price percentage change (claim C1)\<close>

text \<open>
  Claim C1.  On a table whose four price cells are strings in every row,
  \<open>percentagesChangeInPrices\<close> returns, and for each price field the new column is the
  sentinel in rows 0 and 1 (the test is \<open>i - 1 > 0\<close>) and wherever the field of the row or
  of the row before it is the sentinel; in every other row it is the percentage change
  \<open>(current - previous) / previous * 100\<close> of the two parsed values.
\<close>

theorem price_change_values:
  assumes "\<forall>r \<in> set data. \<forall>k \<in> set VALUE_CELLS. \<exists>s. r k = Some (Str s)"
  shows "\<exists>data'. percentagesChangeInPrices data = Inr data' \<and> length data' = length data \<and>
     (\<forall>i < length data. \<forall>k \<in> set [''Open'', ''High'', ''Low'', ''Close'']. \<forall>c p.
        (data ! i) k = Some (Str c) \<longrightarrow> (data ! (i - 1)) k = Some (Str p) \<longrightarrow>
        (data' ! i) (k @ '' - Daily Percentage Change'') =
          Some (if i = 0 \<or> i = 1 \<or> c = ''-'' \<or> p = ''-'' then Str ''-''
                else Num (spec_percentage_change (parseFloat (strip_commas c))
                            (parseFloat (strip_commas p)))))"
proof -
  have "\<forall>i < length data. \<forall>k \<in> set [''Open'', ''High'', ''Low'', ''Close'']. \<exists>v.
     percent_change (0 < int i - 1) ((data ! i) k) ((data ! (i - 1)) k) = Inr v"
  proof (intro allI impI ballI)
    fix i k assume "i < length data" and "k \<in> set [''Open'', ''High'', ''Low'', ''Close'']"
    then have "data ! i \<in> set data" and "data ! (i - 1) \<in> set data"
      and "k \<in> set VALUE_CELLS"
      by (simp_all add: VALUE_CELLS_def)
    then obtain c p where "(data ! i) k = Some (Str c)" and "(data ! (i - 1)) k = Some (Str p)"
      using assms by meson
    then show "\<exists>v. percent_change (0 < int i - 1) ((data ! i) k) ((data ! (i - 1)) k) = Inr v"
      by (simp only: percent_change_strings) blast
  qed
  then obtain data' where run: "percentagesChangeInPrices data = Inr data'"
    using price_stage_total by blast
  have len: "length data' = length data"
    using price_stage [OF run] by blast
  have "(data' ! i) (k @ '' - Daily Percentage Change'') =
          Some (if i = 0 \<or> i = 1 \<or> c = ''-'' \<or> p = ''-'' then Str ''-''
                else Num (spec_percentage_change (parseFloat (strip_commas c))
                            (parseFloat (strip_commas p))))"
    if i: "i < length data" and k: "k \<in> set [''Open'', ''High'', ''Low'', ''Close'']"
      and c: "(data ! i) k = Some (Str c)" and p: "(data ! (i - 1)) k = Some (Str p)" for i k c p
  proof -
    obtain cols where
      cols: "price_reduce data i [''Open'', ''High'', ''Low'', ''Close''] Map.empty = Inr cols"
      and row: "data' ! i = (data ! i) ++ cols"
      using price_stage [OF run] i by blast
    obtain v where v: "percent_change (0 < int i - 1) ((data ! i) k) ((data ! (i - 1)) k) = Inr v"
      and look: "cols (k @ '' - Daily Percentage Change'') = Some v"
      using price_reduce_lookup [OF cols k] by blast
    have edge: "(\<not> 0 < int i - 1) = (i = 0 \<or> i = 1)" by auto
    have "v = (if i = 0 \<or> i = 1 \<or> c = ''-'' \<or> p = ''-'' then Str ''-''
               else Num (spec_percentage_change (parseFloat (strip_commas c))
                           (parseFloat (strip_commas p))))"
      using v unfolding c p percent_change_strings edge by simp
    then show ?thesis
      using look by (simp add: row map_add_Some_iff)
  qed
  then show ?thesis using run len by blast
qed

lemma change_30_20:
  "spec_percentage_change (parseFloat (strip_commas ''30'')) (parseFloat (strip_commas ''20''))
     = Finite False 50"
  by (simp add: spec_percentage_change_def parse_defs num_defs)

theorem price_change_values_witness:
  "\<exists>data'. percentagesChangeInPrices prices_example = Inr data' \<and>
      map (\<lambda>r. r ''Close - Daily Percentage Change'') data' =
        [Some (Str ''-''), Some (Str ''-''), Some (Num (Finite False 50))]"
proof -
  have h: "\<forall>r \<in> set prices_example. \<forall>k \<in> set VALUE_CELLS. \<exists>s. r k = Some (Str s)"
    by (simp add: prices_example_def VALUE_CELLS_def)
  obtain data' where run: "percentagesChangeInPrices prices_example = Inr data'"
    and len: "length data' = length prices_example"
    and vals: "\<forall>i < length prices_example. \<forall>k \<in> set [''Open'', ''High'', ''Low'', ''Close'']. \<forall>c p.
        (prices_example ! i) k = Some (Str c) \<longrightarrow> (prices_example ! (i - 1)) k = Some (Str p) \<longrightarrow>
        (data' ! i) (k @ '' - Daily Percentage Change'') =
          Some (if i = 0 \<or> i = 1 \<or> c = ''-'' \<or> p = ''-'' then Str ''-''
                else Num (spec_percentage_change (parseFloat (strip_commas c))
                            (parseFloat (strip_commas p))))"
    using price_change_values [OF h] by blast
  have v0: "(data' ! 0) ''Close - Daily Percentage Change'' = Some (Str ''-'')"
    using vals [rule_format, of 0 "''Close''" "''10''" "''10''"] by (simp add: prices_example_def)
  have v1: "(data' ! Suc 0) ''Close - Daily Percentage Change'' = Some (Str ''-'')"
    using vals [rule_format, of "Suc 0" "''Close''" "''20''" "''10''"] by (simp add: prices_example_def)
  have v2: "(data' ! Suc (Suc 0)) ''Close - Daily Percentage Change'' = Some (Num (Finite False 50))"
    using vals [rule_format, of "Suc (Suc 0)" "''Close''" "''30''" "''20''"]
    by (simp add: prices_example_def change_30_20)
  have "length data' = Suc (Suc (Suc 0))"
    using len by (simp add: prices_example_def)
  then obtain a b c where "data' = [a, b, c]"
    by (auto simp: length_Suc_conv)
  then have "map (\<lambda>r. r ''Close - Daily Percentage Change'') data' =
        [Some (Str ''-''), Some (Str ''-''), Some (Num (Finite False 50))]"
    using v0 v1 v2 by simp
  with run show ?thesis
    by (intro exI [of _ data'] conjI)
qed

subsection \<open>Sentinel operands (claim C2)\<close>

lemma number_of_sentinel: "string_to_number ''-'' = NaN"
  by (simp add: string_to_number_def trim_def scan_radix_def parse_defs num_defs)

lemma ilog10_2: "ilog10 2 = 0"
  by (simp add: ilog10_def)

lemma digit_candidates_2: "digit_candidates 2 (Suc 0) = [(2, 1)]"
  by (simp add: digit_candidates_def ilog10_2 pow10_def num_defs)

lemma toString_2: "toString (num_of_nat 2) = ''2''"
proof -
  have "shortest_digits 17 1 2 = shortest_digits (Suc 16) (Suc 0) 2"
    by simp
  also have "\<dots> = (2, 1)"
    by (simp only: shortest_digits.simps digit_candidates_2 list.case)
  finally show ?thesis
    by (simp add: num_of_nat_def digits_to_string_def digit_char_def)
qed

lemma average_name_close_2:
  "average_name ''Close'' (num_of_nat 2) = ''Close Moving Average - 2 days''"
  by (simp add: average_name_def toString_2)

text \<open>
  Claim C2 fails on the code.  The window of row 1 of \<open>gap_example\<close> for the length 2
  holds the sentinel of row 0, and \<open>movingAverage\<close> stores the text \<open>NaN\<close> there: it
  converts every cell with \<open>Number\<close> and never compares one with the sentinel, as the two
  percentage transforms do.
\<close>

theorem moving_average_of_sentinel:
  "\<exists>out. movingAverage (num_of_nat 2) gap_example = Inr out \<and>
     (out ! 1) ''Close Moving Average - 2 days'' = Some (Str ''NaN'')"
proof -
  obtain out where run: "movingAverage (num_of_nat 2) gap_example = Inr out"
    using average_stage [of "num_of_nat 2" gap_example] by blast
  have i: "1 < length gap_example" and l: "length gap_example \<le> 2 ^ 32"
    by (simp_all add: gap_example_def)
  have cl: "''Close'' \<in> set VALUE_CELLS" by (simp add: VALUE_CELLS_def)
  have "(out ! 1) (average_name ''Close'' (num_of_nat 2))
          = Some (average_cell (num_of_nat 2) gap_example 1 ''Close'')"
    using average_stage_frame [OF run i] cl by blast
  also have "average_cell (num_of_nat 2) gap_example 1 ''Close'' =
       Str (if (1 :: nat) < 2 - 1 then ''-''
            else numberToCurrencyValue
                   (jsdiv (foldl jsadd (Finite False 0)
                             (map (\<lambda>row. to_number (row ''Close''))
                                (take 2 (drop (1 + 1 - 2) gap_example))))
                      (num_of_nat 2)))"
    using i l by (intro average_cell_value) simp_all
  also have "\<dots> = Str ''NaN''"
    by (simp add: gap_example_def to_number_def number_of_sentinel numberToCurrencyValue_def)
  finally show ?thesis
    using run by (simp only: average_name_close_2) blast
qed

subsection \<open>A previous value of zero (claim C3)\<close>

lemma non_finite_quotient: "\<not> is_finite (jsdiv y (Finite s 0))"
  by (cases y) simp_all

lemma non_finite_product: "\<not> is_finite z \<Longrightarrow> \<not> is_finite (jsmul z (num_of_nat 100))"
  by (cases z) (simp_all add: num_of_nat_def)

lemma percent_change_zero:
  assumes "edge" and "c \<noteq> ''-''" and "p \<noteq> ''-''" and "parseFloat (strip_commas p) = Finite s 0"
  shows "\<exists>x. percent_change edge (Some (Str c)) (Some (Str p)) = Inr (Num x) \<and> \<not> is_finite x"
proof -
  have "\<not> is_finite (spec_percentage_change (parseFloat (strip_commas c)) (Finite s 0))"
    unfolding spec_percentage_change_def
    by (intro non_finite_product non_finite_quotient)
  then show ?thesis
    using assms by (simp add: percent_change_strings)
qed

text \<open>
  Claim C3, amended.  Neither percentage transform tests the previous value for zero.
  Where the edge test passes and neither value is the sentinel, a previous value that
  parses to zero (of either sign) makes the emitted value a Number that is not finite:
  \<open>NaN\<close> or an infinity, never the sentinel.
\<close>

theorem zero_previous_value:
  "(percentagesChangeInVolume data = Inr out1 \<longrightarrow>
      (\<forall>i < length data. \<forall>c p s.
         1 \<le> i \<and> (data ! i) ''Volume'' = Some (Str c) \<and> (data ! (i - 1)) ''Volume'' = Some (Str p)
         \<and> c \<noteq> ''-'' \<and> p \<noteq> ''-'' \<and> parseFloat (strip_commas p) = Finite s 0 \<longrightarrow>
         (\<exists>x. (out1 ! i) ''Daily Change in Volume'' = Some (Num x) \<and> \<not> is_finite x))) \<and>
   (percentagesChangeInPrices data = Inr out2 \<longrightarrow>
      (\<forall>i < length data. \<forall>k \<in> set VALUE_CELLS. \<forall>c p s.
         2 \<le> i \<and> (data ! i) k = Some (Str c) \<and> (data ! (i - 1)) k = Some (Str p)
         \<and> c \<noteq> ''-'' \<and> p \<noteq> ''-'' \<and> parseFloat (strip_commas p) = Finite s 0 \<longrightarrow>
         (\<exists>x. (out2 ! i) (k @ '' - Daily Percentage Change'') = Some (Num x) \<and> \<not> is_finite x)))"
proof (intro conjI impI allI ballI)
  fix i c p s
  assume run: "percentagesChangeInVolume data = Inr out1" and i: "i < length data"
    and h: "1 \<le> i \<and> (data ! i) ''Volume'' = Some (Str c) \<and> (data ! (i - 1)) ''Volume'' = Some (Str p)
         \<and> c \<noteq> ''-'' \<and> p \<noteq> ''-'' \<and> parseFloat (strip_commas p) = Finite s 0"
  obtain v where v: "percent_change (0 \<le> int i - 1) ((data ! i) ''Volume'')
        ((data ! (i - 1)) ''Volume'') = Inr v"
    and row: "out1 ! i = (data ! i)(''Daily Change in Volume'' \<mapsto> v)"
    using volume_stage [OF run] i by blast
  have edge: "0 \<le> int i - 1" using h by simp
  obtain x where x: "percent_change (0 \<le> int i - 1) (Some (Str c)) (Some (Str p)) = Inr (Num x)"
    and nf: "\<not> is_finite x"
    using percent_change_zero [OF edge, of c p s] h by blast
  have "percent_change (0 \<le> int i - 1) (Some (Str c)) (Some (Str p)) = Inr v"
    using v h by (simp only:)
  then have "v = Num x" using x by (simp only: sum.inject)
  then have "(out1 ! i) ''Daily Change in Volume'' = Some (Num x)"
    by (simp only: row fun_upd_same)
  with nf show "\<exists>x. (out1 ! i) ''Daily Change in Volume'' = Some (Num x) \<and> \<not> is_finite x"
    by (intro exI [of _ x] conjI)
next
  fix i k c p s
  assume run: "percentagesChangeInPrices data = Inr out2" and i: "i < length data"
    and k: "k \<in> set VALUE_CELLS"
    and h: "2 \<le> i \<and> (data ! i) k = Some (Str c) \<and> (data ! (i - 1)) k = Some (Str p)
         \<and> c \<noteq> ''-'' \<and> p \<noteq> ''-'' \<and> parseFloat (strip_commas p) = Finite s 0"
  obtain cols where cols: "price_reduce data i [''Open'', ''High'', ''Low'', ''Close''] Map.empty = Inr cols"
    and row: "out2 ! i = (data ! i) ++ cols"
    using price_stage [OF run] i by blast
  have "k \<in> set [''Open'', ''High'', ''Low'', ''Close'']"
    using k by (simp add: VALUE_CELLS_def)
  then obtain v where v: "percent_change (0 < int i - 1) ((data ! i) k) ((data ! (i - 1)) k) = Inr v"
    and look: "cols (k @ '' - Daily Percentage Change'') = Some v"
    using price_reduce_lookup [OF cols] by blast
  have edge: "0 < int i - 1" using h by simp
  obtain x where x: "percent_change (0 < int i - 1) (Some (Str c)) (Some (Str p)) = Inr (Num x)"
    and nf: "\<not> is_finite x"
    using percent_change_zero [OF edge, of c p s] h by blast
  have "percent_change (0 < int i - 1) (Some (Str c)) (Some (Str p)) = Inr v"
    using v h by (simp only:)
  then have "v = Num x" using x by (simp only: sum.inject)
  then have "cols (k @ '' - Daily Percentage Change'') = Some (Num x)"
    using look by (simp only:)
  then have "(out2 ! i) (k @ '' - Daily Percentage Change'') = Some (Num x)"
    by (simp add: row map_add_Some_iff)
  with nf show "\<exists>x. (out2 ! i) (k @ '' - Daily Percentage Change'') = Some (Num x) \<and> \<not> is_finite x"
    by (intro exI [of _ x] conjI)
qed

lemma zero_volume_run: "\<exists>out. percentagesChangeInVolume zero_volume_example = Inr out"
  by (rule volume_stage_total)
    (simp add: zero_volume_example_def percent_change_strings less_Suc_eq)

lemma parse_zero: "parseFloat (strip_commas ''0'') = Finite False 0"
  by (simp add: parse_defs num_defs)

lemma parse_five: "parseFloat (strip_commas ''5'') = Finite False 5"
  by (simp add: parse_defs num_defs)

theorem zero_previous_value_witness:
  "\<exists>out x. percentagesChangeInVolume zero_volume_example = Inr out \<and>
     (out ! 1) ''Daily Change in Volume'' = Some (Num x) \<and> \<not> is_finite x"
proof -
  obtain out where run: "percentagesChangeInVolume zero_volume_example = Inr out"
    using zero_volume_run by blast
  have i: "1 < length zero_volume_example" by (simp add: zero_volume_example_def)
  have h: "(1 :: nat) \<le> 1 \<and> (zero_volume_example ! 1) ''Volume'' = Some (Str ''5'')
      \<and> (zero_volume_example ! (1 - 1)) ''Volume'' = Some (Str ''0'')
      \<and> ''5'' \<noteq> ''-'' \<and> ''0'' \<noteq> ''-'' \<and> parseFloat (strip_commas ''0'') = Finite False 0"
    by (simp add: zero_volume_example_def parse_zero)
  have "\<exists>x. (out ! 1) ''Daily Change in Volume'' = Some (Num x) \<and> \<not> is_finite x"
    using zero_previous_value [of zero_volume_example out, THEN conjunct1, THEN mp, OF run,
        rule_format, OF i h] .
  then show ?thesis using run by blast
qed

theorem zero_previous_volume_is_infinity:
  "\<exists>out. percentagesChangeInVolume zero_volume_example = Inr out \<and>
     (out ! 1) ''Daily Change in Volume'' = Some (Num (Infinity False))"
proof -
  obtain out where run: "percentagesChangeInVolume zero_volume_example = Inr out"
    using zero_volume_run by blast
  have i: "1 < length zero_volume_example" by (simp add: zero_volume_example_def)
  obtain v where v: "percent_change (0 \<le> int 1 - 1) ((zero_volume_example ! 1) ''Volume'')
        ((zero_volume_example ! (1 - 1)) ''Volume'') = Inr v"
    and row: "out ! 1 = (zero_volume_example ! 1)(''Daily Change in Volume'' \<mapsto> v)"
    using volume_stage [OF run] i by blast
  have "spec_percentage_change (Finite False 5) (Finite False 0) = Infinity False"
    by (simp add: spec_percentage_change_def num_defs)
  then have "v = Num (Infinity False)"
    using v by (simp add: zero_volume_example_def percent_change_strings parse_zero parse_five)
  then have "(out ! 1) ''Daily Change in Volume'' = Some (Num (Infinity False))"
    by (simp only: row fun_upd_same)
  with run show ?thesis by (intro exI [of _ out] conjI)
qed

subsection \<open>The moving average (claim C5)\<close>












subsection \<open>The volume percentage change (claim C6)\<close>

text \<open>
  Claim C6.  On a table whose volume cells are strings, \<open>percentagesChangeInVolume\<close>
  returns, and the new column of row \<open>i\<close> is the sentinel when \<open>i = 0\<close> or the volume
  of the row or of the row before it is the sentinel.  In every other row it is a Number:
  when the two volumes, with their commas removed, are plain decimal numerals, it is
  \<open>(new - old) / old * 100\<close> computed on the Numbers nearest to their values.  The
  change is therefore computed from index 1 on.
\<close>

theorem volume_change_values:
  assumes "\<forall>r \<in> set data. \<exists>s. r ''Volume'' = Some (Str s)"
  shows "\<exists>data'. percentagesChangeInVolume data = Inr data' \<and> length data' = length data \<and>
     (\<forall>i < length data. \<forall>c p.
        (data ! i) ''Volume'' = Some (Str c) \<longrightarrow> (data ! (i - 1)) ''Volume'' = Some (Str p) \<longrightarrow>
        (if i = 0 \<or> c = ''-'' \<or> p = ''-''
         then (data' ! i) ''Daily Change in Volume'' = Some (Str ''-'')
         else (\<exists>x. (data' ! i) ''Daily Change in Volume'' = Some (Num x)) \<and>
              (\<forall>new old.
                 spec_decimal_value (filter (\<lambda>ch. ch \<noteq> CHR '','') c) = Some new \<longrightarrow>
                 spec_decimal_value (filter (\<lambda>ch. ch \<noteq> CHR '','') p) = Some old \<longrightarrow>
                 (data' ! i) ''Daily Change in Volume'' =
                   Some (Num (spec_percentage_change (fround False new) (fround False old))))))"
proof -
  have "\<forall>i < length data. \<exists>v.
     percent_change (0 \<le> int i - 1) ((data ! i) ''Volume'') ((data ! (i - 1)) ''Volume'') = Inr v"
  proof (intro allI impI)
    fix i assume "i < length data"
    then have "data ! i \<in> set data" and "data ! (i - 1) \<in> set data" by simp_all
    then obtain c p where "(data ! i) ''Volume'' = Some (Str c)"
      and "(data ! (i - 1)) ''Volume'' = Some (Str p)"
      using assms by meson
    then show "\<exists>v. percent_change (0 \<le> int i - 1) ((data ! i) ''Volume'')
        ((data ! (i - 1)) ''Volume'') = Inr v"
      by (simp only: percent_change_strings) blast
  qed
  then obtain data' where run: "percentagesChangeInVolume data = Inr data'"
    using volume_stage_total by blast
  have len: "length data' = length data"
    using volume_stage [OF run] by blast
  have "if i = 0 \<or> c = ''-'' \<or> p = ''-''
         then (data' ! i) ''Daily Change in Volume'' = Some (Str ''-'')
         else (\<exists>x. (data' ! i) ''Daily Change in Volume'' = Some (Num x)) \<and>
              (\<forall>new old.
                 spec_decimal_value (filter (\<lambda>ch. ch \<noteq> CHR '','') c) = Some new \<longrightarrow>
                 spec_decimal_value (filter (\<lambda>ch. ch \<noteq> CHR '','') p) = Some old \<longrightarrow>
                 (data' ! i) ''Daily Change in Volume'' =
                   Some (Num (spec_percentage_change (fround False new) (fround False old))))"
    if i: "i < length data" and c: "(data ! i) ''Volume'' = Some (Str c)"
      and p: "(data ! (i - 1)) ''Volume'' = Some (Str p)" for i c p
  proof -
    obtain v where v: "percent_change (0 \<le> int i - 1) ((data ! i) ''Volume'')
          ((data ! (i - 1)) ''Volume'') = Inr v"
      and row: "data' ! i = (data ! i)(''Daily Change in Volume'' \<mapsto> v)"
      using volume_stage [OF run] i by blast
    have edge: "(\<not> 0 \<le> int i - 1) = (i = 0)" by auto
    have cell: "(data' ! i) ''Daily Change in Volume'' = Some v"
      by (simp only: row fun_upd_same)
    have val: "v = (if i = 0 \<or> c = ''-'' \<or> p = ''-'' then Str ''-''
               else Num (spec_percentage_change (parseFloat (strip_commas c))
                           (parseFloat (strip_commas p))))"
      using v unfolding c p percent_change_strings edge by simp
    show ?thesis
    proof (cases "i = 0 \<or> c = ''-'' \<or> p = ''-''")
      case True
      then show ?thesis using val cell by simp
    next
      case False
      then have v': "v = Num (spec_percentage_change
            (parseFloat (filter (\<lambda>ch. ch \<noteq> CHR '','') c))
            (parseFloat (filter (\<lambda>ch. ch \<noteq> CHR '','') p)))"
        using val by (simp add: strip_commas_def)
      have "(data' ! i) ''Daily Change in Volume'' =
                   Some (Num (spec_percentage_change (fround False new) (fround False old)))"
        if "spec_decimal_value (filter (\<lambda>ch. ch \<noteq> CHR '','') c) = Some new"
          and "spec_decimal_value (filter (\<lambda>ch. ch \<noteq> CHR '','') p) = Some old" for new old
        by (simp only: cell v' parseFloat_spec [OF that(1)] parseFloat_spec [OF that(2)])
      moreover have "\<exists>x. (data' ! i) ''Daily Change in Volume'' = Some (Num x)"
        using cell v' by blast
      ultimately show ?thesis using False by simp
    qed
  qed
  then show ?thesis using run len by blast
qed

lemma numeral_1000: "spec_decimal_value (filter (\<lambda>ch. ch \<noteq> CHR '','') ''1,000'') = Some 1000"
  by (simp add: spec_decimal_value_def spec_digit_def spec_digits_value_def)

lemma numeral_1500: "spec_decimal_value (filter (\<lambda>ch. ch \<noteq> CHR '','') ''1,500'') = Some 1500"
  by (simp add: spec_decimal_value_def spec_digit_def spec_digits_value_def)

lemma change_1500_1000:
  "spec_percentage_change (fround False 1500) (fround False 1000) = Finite False 50"
  by (simp add: spec_percentage_change_def num_defs)

theorem volume_change_values_witness:
  "(\<exists>data'. percentagesChangeInVolume volumes_example = Inr data' \<and>
      map (\<lambda>r. r ''Daily Change in Volume'') data' =
        [Some (Str ''-''), Some (Str ''-''), Some (Str ''-'')]) \<and>
   (\<exists>data'. percentagesChangeInVolume comma_volumes_example = Inr data' \<and>
      map (\<lambda>r. r ''Daily Change in Volume'') data' =
        [Some (Str ''-''), Some (Num (Finite False 50))])"
proof (rule conjI)
  have h: "\<forall>r \<in> set volumes_example. \<exists>s. r ''Volume'' = Some (Str s)"
    by (simp add: volumes_example_def)
  obtain data' where run: "percentagesChangeInVolume volumes_example = Inr data'"
    and len: "length data' = length volumes_example"
    and vals: "\<forall>i < length volumes_example. \<forall>c p.
        (volumes_example ! i) ''Volume'' = Some (Str c) \<longrightarrow>
        (volumes_example ! (i - 1)) ''Volume'' = Some (Str p) \<longrightarrow>
        (if i = 0 \<or> c = ''-'' \<or> p = ''-''
         then (data' ! i) ''Daily Change in Volume'' = Some (Str ''-'')
         else (\<exists>x. (data' ! i) ''Daily Change in Volume'' = Some (Num x)) \<and>
              (\<forall>new old.
                 spec_decimal_value (filter (\<lambda>ch. ch \<noteq> CHR '','') c) = Some new \<longrightarrow>
                 spec_decimal_value (filter (\<lambda>ch. ch \<noteq> CHR '','') p) = Some old \<longrightarrow>
                 (data' ! i) ''Daily Change in Volume'' =
                   Some (Num (spec_percentage_change (fround False new) (fround False old)))))"
    using volume_change_values [OF h] by blast
  have sentinel: "(data' ! i) ''Daily Change in Volume'' = Some (Str ''-'')"
    if "i < length volumes_example" and "(volumes_example ! i) ''Volume'' = Some (Str c)"
      and "(volumes_example ! (i - 1)) ''Volume'' = Some (Str p)"
      and "i = 0 \<or> c = ''-'' \<or> p = ''-''" for i c p
    using vals [rule_format, OF that(1,2,3)] that(4) by (simp only: if_True)
  have v0: "(data' ! 0) ''Daily Change in Volume'' = Some (Str ''-'')"
    by (rule sentinel [of 0 "''100''" "''100''"]) (simp_all add: volumes_example_def)
  have v1: "(data' ! Suc 0) ''Daily Change in Volume'' = Some (Str ''-'')"
    by (rule sentinel [of "Suc 0" "''-''" "''100''"]) (simp_all add: volumes_example_def)
  have v2: "(data' ! Suc (Suc 0)) ''Daily Change in Volume'' = Some (Str ''-'')"
    by (rule sentinel [of "Suc (Suc 0)" "''150''" "''-''"]) (simp_all add: volumes_example_def)
  have "length data' = Suc (Suc (Suc 0))"
    using len by (simp add: volumes_example_def)
  then obtain a b c where "data' = [a, b, c]"
    by (auto simp: length_Suc_conv)
  then have "map (\<lambda>r. r ''Daily Change in Volume'') data' =
        [Some (Str ''-''), Some (Str ''-''), Some (Str ''-'')]"
    using v0 v1 v2 by simp
  with run show "\<exists>data'. percentagesChangeInVolume volumes_example = Inr data' \<and>
      map (\<lambda>r. r ''Daily Change in Volume'') data' =
        [Some (Str ''-''), Some (Str ''-''), Some (Str ''-'')]"
    by (intro exI [of _ data'] conjI)
next
  have h: "\<forall>r \<in> set comma_volumes_example. \<exists>s. r ''Volume'' = Some (Str s)"
    by (simp add: comma_volumes_example_def)
  obtain data' where run: "percentagesChangeInVolume comma_volumes_example = Inr data'"
    and len: "length data' = length comma_volumes_example"
    and vals: "\<forall>i < length comma_volumes_example. \<forall>c p.
        (comma_volumes_example ! i) ''Volume'' = Some (Str c) \<longrightarrow>
        (comma_volumes_example ! (i - 1)) ''Volume'' = Some (Str p) \<longrightarrow>
        (if i = 0 \<or> c = ''-'' \<or> p = ''-''
         then (data' ! i) ''Daily Change in Volume'' = Some (Str ''-'')
         else (\<exists>x. (data' ! i) ''Daily Change in Volume'' = Some (Num x)) \<and>
              (\<forall>new old.
                 spec_decimal_value (filter (\<lambda>ch. ch \<noteq> CHR '','') c) = Some new \<longrightarrow>
                 spec_decimal_value (filter (\<lambda>ch. ch \<noteq> CHR '','') p) = Some old \<longrightarrow>
                 (data' ! i) ''Daily Change in Volume'' =
                   Some (Num (spec_percentage_change (fround False new) (fround False old)))))"
    using volume_change_values [OF h] by blast
  have i0: "0 < length comma_volumes_example" and i1: "Suc 0 < length comma_volumes_example"
    by (simp_all add: comma_volumes_example_def)
  have c0: "(comma_volumes_example ! 0) ''Volume'' = Some (Str ''1,000'')"
    and c1: "(comma_volumes_example ! Suc 0) ''Volume'' = Some (Str ''1,500'')"
    by (simp_all add: comma_volumes_example_def)
  have p0: "(comma_volumes_example ! (0 - 1)) ''Volume'' = Some (Str ''1,000'')"
    using c0 by simp
  have v0: "(data' ! 0) ''Daily Change in Volume'' = Some (Str ''-'')"
    using vals [rule_format, OF i0 c0 p0] by (simp only: if_True simp_thms)
  have "0 < Suc 0 \<and> ''1,500'' \<noteq> ''-'' \<and> ''1,000'' \<noteq> ''-''"
    by simp
  then have no: "\<not> (Suc 0 = 0 \<or> ''1,500'' = ''-'' \<or> ''1,000'' = ''-'')"
    by simp
  have p1: "(comma_volumes_example ! (Suc 0 - 1)) ''Volume'' = Some (Str ''1,000'')"
    using c0 by simp
  have "(\<exists>x. (data' ! Suc 0) ''Daily Change in Volume'' = Some (Num x)) \<and>
              (\<forall>new old.
                 spec_decimal_value (filter (\<lambda>ch. ch \<noteq> CHR '','') ''1,500'') = Some new \<longrightarrow>
                 spec_decimal_value (filter (\<lambda>ch. ch \<noteq> CHR '','') ''1,000'') = Some old \<longrightarrow>
                 (data' ! Suc 0) ''Daily Change in Volume'' =
                   Some (Num (spec_percentage_change (fround False new) (fround False old))))"
    using vals [rule_format, OF i1 c1 p1, unfolded if_not_P [OF no]] .
  then have "(data' ! Suc 0) ''Daily Change in Volume'' =
      Some (Num (spec_percentage_change (fround False 1500) (fround False 1000)))"
    using numeral_1500 numeral_1000 by (elim conjE allE [of _ 1500] allE [of _ 1000]) simp
  then have v1: "(data' ! Suc 0) ''Daily Change in Volume'' = Some (Num (Finite False 50))"
    by (simp only: change_1500_1000)
  have "length data' = Suc (Suc 0)"
    using len by (simp add: comma_volumes_example_def)
  then obtain a b where "data' = [a, b]"
    by (auto simp: length_Suc_conv)
  then have "map (\<lambda>r. r ''Daily Change in Volume'') data' =
        [Some (Str ''-''), Some (Num (Finite False 50))]"
    using v0 v1 by simp
  with run show "\<exists>data'. percentagesChangeInVolume comma_volumes_example = Inr data' \<and>
      map (\<lambda>r. r ''Daily Change in Volume'') data' =
        [Some (Str ''-''), Some (Num (Finite False 50))]"
    by (intro exI [of _ data'] conjI)
qed

subsection \<open>The configured window lengths (claim C7)\<close>

lemma check_tokens_eq:
  "check_tokens ts =
     (if list_ex (\<lambda>a. isNaN (string_to_number a)) ts then Inl (ProcessExit 1)
      else Inr (map string_to_number ts))"
  by (induction ts) simp_all

lemma number_of_0: "string_to_number ''0'' = Finite False 0"
  by (simp add: string_to_number_def trim_def scan_radix_def parse_defs num_defs)

lemma number_of_minus_3: "string_to_number ''-3'' = Finite True 3"
  by (simp add: string_to_number_def trim_def scan_radix_def parse_defs num_defs)

lemma number_of_2_5: "string_to_number ''2.5'' = Finite False (5 / 2)"
  by (simp add: string_to_number_def trim_def scan_radix_def parse_defs num_defs)

lemma number_of_5: "string_to_number ''5'' = Finite False 5"
  by (simp add: string_to_number_def trim_def scan_radix_def parse_defs num_defs)

lemma number_of_x: "string_to_number ''x'' = NaN"
  by (simp add: string_to_number_def trim_def scan_radix_def parse_defs num_defs)

lemma tokens_0_minus_3_2_5: "map trim (split_commas ''0, -3,2.5'') = [''0'', ''-3'', ''2.5'']"
  by (simp add: split_commas_def trim_def is_space_def)

lemma tokens_5_x: "map trim (split_commas ''5,x'') = [''5'', ''x'']"
  by (simp add: split_commas_def trim_def is_space_def)

text \<open>
  Claim C7, amended.  The tokens of \<open>--moving-averages\<close> are split at commas and
  trimmed, and each is tested only with \<open>isNaN\<close>.  A token that is not numeric ends the
  process with exit code 1 when the list of stages is built: after the sort, before any
  transform runs and before any output.  Every numeric token is accepted and converted
  with \<open>Number\<close>, whether it is zero, negative or fractional.
\<close>

theorem window_tokens_checked_for_NaN_only:
  "formatInputtedMovingAverages (Some s) =
     (if s = [] then Inr None
      else if list_ex (\<lambda>a. isNaN (string_to_number a)) (map trim (split_commas s))
      then Inl (ProcessExit 1)
      else Inr (Some (map string_to_number (map trim (split_commas s))))) \<and>
   (s \<noteq> [] \<and> list_ex (\<lambda>a. isNaN (string_to_number a)) (map trim (split_commas s)) \<longrightarrow>
      prepareData (Some s) data = Inl (ProcessExit 1) \<and>
      enrich dp (Some s) csv = Inl (ProcessExit 1))"
  by (simp add: formatInputtedMovingAverages_def check_tokens_eq enrich_prepare prepareData_def
      movingAverages_def)

theorem window_tokens_checked_for_NaN_only_witness:
  "enrich isoDate (Some ''5,x'') [[''Date'', ''Volume''], [''2020-01-01'', ''100'']]
     = Inl (ProcessExit 1)"
proof -
  have "''5,x'' \<noteq> [] \<and> list_ex (\<lambda>a. isNaN (string_to_number a)) (map trim (split_commas ''5,x''))"
    by (simp add: tokens_5_x number_of_5 number_of_x)
  then show ?thesis
    using window_tokens_checked_for_NaN_only
      [of "''5,x''" "[]" isoDate "[[''Date'', ''Volume''], [''2020-01-01'', ''100'']]"]
    by (elim conjE impE) simp_all
qed

theorem non_positive_tokens_accepted:
  "formatInputtedMovingAverages (Some ''0, -3,2.5'')
     = Inr (Some [Finite False 0, Finite True 3, Finite False (5 / 2)])"
  by (simp add: formatInputtedMovingAverages_def check_tokens_eq tokens_0_minus_3_2_5
      number_of_0 number_of_minus_3 number_of_2_5)

subsection \<open>The row model (claim C8)\<close>

lemma row_fold_lookup:
  "foldl (\<lambda>accum (i, elem). assign_property accum (header_key hs i) (Str elem)) acc ps k =
     (if k = ''__proto__'' then acc k
      else case filter (\<lambda>(i, elem). header_key hs i = k) (rev ps) of
             [] \<Rightarrow> acc k
           | (i, elem) # _ \<Rightarrow> Some (Str elem))"
proof (induction ps rule: rev_induct)
  case Nil
  then show ?case by simp
next
  case (snoc x ps)
  obtain i elem where x: "x = (i, elem)" by (cases x)
  show ?case
  proof (cases "k = ''__proto__''")
    case True
    have "foldl (\<lambda>accum (i, elem). assign_property accum (header_key hs i) (Str elem)) acc ps
            ''__proto__'' = acc ''__proto__''"
      using snoc True by simp
    then show ?thesis
      using True by (simp add: x assign_property_def)
  next
    case False
    then show ?thesis
      using snoc by (simp add: x assign_property_def)
  qed
qed

lemma rowToObject_lookup:
  "rowToObject hs row k =
     (if k = ''__proto__'' then None
      else case filter (\<lambda>(i, elem). header_key hs i = k) (rev (zip [0..<length row] row)) of
             [] \<Rightarrow> None
           | (i, elem) # _ \<Rightarrow> Some (Str elem))"
  by (simp add: rowToObject_def row_fold_lookup)

lemma filter_keys_distinct:
  assumes "distinct hs" and "n \<le> length hs" and "j < length hs"
  shows "filter (\<lambda>(i, elem). header_key hs i = hs ! j) (zip [0..<n] (take n row))
           = (if j < n \<and> j < length row then [(j, row ! j)] else [])"
  using assms(2)
proof (induction n)
  case 0
  then show ?case by simp
next
  case (Suc n)
  then have n: "n < length hs" "n \<le> length hs" by simp_all
  have key: "(header_key hs n = hs ! j) = (n = j)"
    using assms(1,3) n(1) by (simp add: header_key_def nth_eq_iff_index_eq)
  show ?case
  proof (cases "n < length row")
    case True
    then have "zip [0..<Suc n] (take (Suc n) row) = zip [0..<n] (take n row) @ [(n, row ! n)]"
      by (simp add: take_Suc_conv_app_nth)
    then show ?thesis
      using Suc.IH [OF n(2)] key True by auto
  next
    case False
    then have "take (Suc n) row = take n row" by simp
    moreover have "zip [0..<Suc n] (take n row) = zip [0..<n] (take n row)"
      by (simp add: zip_append1)
    ultimately show ?thesis
      using Suc.IH [OF n(2)] False by auto
  qed
qed

lemma rowToObject_short:
  assumes "distinct hs" and "length row \<le> length hs" and "j < length hs"
  shows "rowToObject hs row (hs ! j) =
           (if j < length row \<and> hs ! j \<noteq> ''__proto__'' then Some (Str (row ! j)) else None)"
proof -
  have "filter (\<lambda>(i, elem). header_key hs i = hs ! j) (zip [0..<length row] (take (length row) row))
           = (if j < length row \<and> j < length row then [(j, row ! j)] else [])"
    using assms by (rule filter_keys_distinct)
  then have "filter (\<lambda>(i, elem). header_key hs i = hs ! j) (rev (zip [0..<length row] row))
           = (if j < length row then [(j, row ! j)] else [])"
    by (simp add: rev_filter [symmetric])
  then show ?thesis
    by (simp add: rowToObject_lookup)
qed

lemma rowToObject_long:
  assumes "length hs < length row"
  shows "rowToObject hs row ''undefined'' = Some (Str (last row))"
proof -
  from assms obtain ys y where row: "row = ys @ [y]"
    by (cases row rule: rev_cases) auto
  have "header_key hs (length ys) = ''undefined''"
    using assms by (simp add: header_key_def row)
  moreover have "zip [0..<length row] row = zip [0..<length ys] ys @ [(length ys, y)]"
    by (simp add: row)
  ultimately show ?thesis
    by (simp add: rowToObject_lookup row)
qed

text \<open>
  Claim C8, amended.  \<open>rowsToObjects\<close> compares no lengths and cannot fail: it builds one
  record for every raw row.  Under a header of distinct names, the record of a row that
  is not longer than the header holds the cells the row has (but for a column named
  \<open>__proto__\<close>, which no record keeps) and lacks the columns the row is short of; the
  last cell of a row that is longer than the header is stored under the key
  \<open>undefined\<close>.
\<close>

theorem rowsToObjects_unchecked:
  "length (rowsToObjects rows headers) = length rows \<and>
   (\<forall>j < length rows. \<forall>i < length headers.
      distinct headers \<and> length (rows ! j) \<le> length headers \<longrightarrow>
      (rowsToObjects rows headers ! j) (headers ! i) =
        (if i < length (rows ! j) \<and> headers ! i \<noteq> ''__proto__''
         then Some (Str (rows ! j ! i)) else None)) \<and>
   (\<forall>j < length rows. length headers < length (rows ! j) \<longrightarrow>
      (rowsToObjects rows headers ! j) ''undefined'' = Some (Str (last (rows ! j))))"
  by (simp add: rowsToObjects_def rowToObject_short rowToObject_long)

theorem rowsToObjects_unchecked_witness:
  "(rowsToObjects ragged_rows ragged_headers ! 0) ''Volume'' = None \<and>
   (rowsToObjects ragged_rows ragged_headers ! 0) ''Close'' = Some (Str ''10'') \<and>
   (rowsToObjects ragged_rows ragged_headers ! 1) ''undefined'' = Some (Str ''y'')"
proof -
  have d: "distinct ragged_headers \<and> length (ragged_rows ! 0) \<le> length ragged_headers"
    by (simp add: ragged_rows_def ragged_headers_def)
  have j0: "0 < length ragged_rows" and j1: "1 < length ragged_rows"
    and i1: "1 < length ragged_headers" and i2: "2 < length ragged_headers"
    and lg: "length ragged_headers < length (ragged_rows ! 1)"
    by (simp_all add: ragged_rows_def ragged_headers_def)
  have f2: "(rowsToObjects ragged_rows ragged_headers ! 0) (ragged_headers ! 2) =
        (if 2 < length (ragged_rows ! 0) \<and> ragged_headers ! 2 \<noteq> ''__proto__''
         then Some (Str (ragged_rows ! 0 ! 2)) else None)"
    using rowsToObjects_unchecked [of ragged_rows ragged_headers, THEN conjunct2, THEN conjunct1,
        rule_format, OF j0 i2 d] .
  have f1: "(rowsToObjects ragged_rows ragged_headers ! 0) (ragged_headers ! 1) =
        (if 1 < length (ragged_rows ! 0) \<and> ragged_headers ! 1 \<noteq> ''__proto__''
         then Some (Str (ragged_rows ! 0 ! 1)) else None)"
    using rowsToObjects_unchecked [of ragged_rows ragged_headers, THEN conjunct2, THEN conjunct1,
        rule_format, OF j0 i1 d] .
  have f3: "(rowsToObjects ragged_rows ragged_headers ! 1) ''undefined''
      = Some (Str (last (ragged_rows ! 1)))"
    using rowsToObjects_unchecked [of ragged_rows ragged_headers, THEN conjunct2, THEN conjunct2,
        rule_format, OF j1 lg] .
  have h2: "ragged_headers ! 2 = ''Volume''" and h1: "ragged_headers ! 1 = ''Close''"
    and r2: "\<not> 2 < length (ragged_rows ! 0)" and r1: "1 < length (ragged_rows ! 0)"
    and c1: "ragged_rows ! 0 ! 1 = ''10''" and c3: "last (ragged_rows ! 1) = ''y''"
    by (simp_all add: ragged_rows_def ragged_headers_def)
  show ?thesis
    using f1 f2 f3 by (simp only: h1 h2 r1 r2 c1 c3) simp
qed

theorem short_row_builds_record:
  "length (rowsToObjects [[''2020-01-01'', ''10'']] [''Date'', ''Close'', ''Volume'']) = 1 \<and>
   (rowsToObjects [[''2020-01-01'', ''10'']] [''Date'', ''Close'', ''Volume''] ! 0) ''Date''
      = Some (Str ''2020-01-01'') \<and>
   (rowsToObjects [[''2020-01-01'', ''10'']] [''Date'', ''Close'', ''Volume''] ! 0) ''Volume'' = None"
  by (simp add: rowsToObjects_def rowToObject_def header_key_def assign_property_def)

subsection \<open>The chronological sort (claim C9)\<close>

lemma insort_by_dates:
  assumes "newDate dp (x k) \<noteq> None" and "\<forall>y \<in> set ys. newDate dp (y k) \<noteq> None"
  shows "insort_by (date_compare dp k) x ys = insort_key (\<lambda>r. the (newDate dp (r k))) x ys"
  using assms(2)
proof (induction ys)
  case Nil
  then show ?case by simp
next
  case (Cons y ys)
  obtain tx ty where t: "newDate dp (x k) = Some tx" "newDate dp (y k) = Some ty"
    using assms(1) Cons.prems by auto
  have "jslt (Finite False 0) (date_compare dp k x y) = (ty < tx)"
    by (simp add: date_compare_def date_number_def t date_difference_sign)
  then show ?case
    using Cons by (auto simp add: t)
qed

lemma array_sort_dates:
  assumes "\<forall>r \<in> set data. newDate dp (r k) \<noteq> None"
  shows "sortDataByDate dp k data = sort_key (\<lambda>r. the (newDate dp (r k))) data"
  using assms
proof (induction data)
  case Nil
  then show ?case by (simp add: sortDataByDate_def array_sort_def)
next
  case (Cons x xs)
  have ih: "array_sort (date_compare dp k) xs = sort_key (\<lambda>r. the (newDate dp (r k))) xs"
    using Cons by (simp add: sortDataByDate_def)
  have "\<forall>y \<in> set (sort_key (\<lambda>r. the (newDate dp (r k))) xs). newDate dp (y k) \<noteq> None"
    using Cons.prems by simp
  then have "insort_by (date_compare dp k) x (sort_key (\<lambda>r. the (newDate dp (r k))) xs)
      = insort_key (\<lambda>r. the (newDate dp (r k))) x (sort_key (\<lambda>r. the (newDate dp (r k))) xs)"
    using Cons.prems by (intro insort_by_dates) simp_all
  then show ?case
    using ih by (simp add: sortDataByDate_def array_sort_def)
qed

text \<open>
  Claim C9.  On records whose dates all parse, \<open>sortDataByDate\<close> orders the records by
  date, keeps the records of one date in their original relative order, and returns a
  sequence that is already in ascending order of date as it is.
\<close>

theorem sort_stable_idempotent:
  assumes "\<forall>r \<in> set data. newDate dp (r dateKey) \<noteq> None"
  shows "sorted (map (\<lambda>r. the (newDate dp (r dateKey))) (sortDataByDate dp dateKey data)) \<and>
     (\<forall>t. filter (\<lambda>r. newDate dp (r dateKey) = Some t) (sortDataByDate dp dateKey data)
            = filter (\<lambda>r. newDate dp (r dateKey) = Some t) data) \<and>
     (sorted (map (\<lambda>r. the (newDate dp (r dateKey))) data) \<longrightarrow>
        sortDataByDate dp dateKey data = data)"
proof -
  let ?f = "\<lambda>r. the (newDate dp (r dateKey))"
  have eq: "sortDataByDate dp dateKey data = sort_key ?f data"
    using assms by (rule array_sort_dates)
  have valid: "(newDate dp (r dateKey) = Some t) = (?f r = t)" if "r \<in> set data" for r t
    using assms that by auto
  have "filter (\<lambda>r. newDate dp (r dateKey) = Some t) (sort_key ?f data)
            = filter (\<lambda>r. newDate dp (r dateKey) = Some t) data" for t
  proof -
    have "filter (\<lambda>r. newDate dp (r dateKey) = Some t) (sort_key ?f data)
        = filter (\<lambda>r. ?f r = t) (sort_key ?f data)"
      using valid by (intro filter_cong) simp_all
    also have "\<dots> = filter (\<lambda>r. ?f r = t) data"
      by (rule sort_key_stable)
    also have "\<dots> = filter (\<lambda>r. newDate dp (r dateKey) = Some t) data"
      using valid by (intro filter_cong) simp_all
    finally show ?thesis .
  qed
  moreover have "sorted (map ?f (sort_key ?f data))"
    by (rule sorted_sort_key)
  moreover have "sorted (map ?f data) \<longrightarrow> sort_key ?f data = data"
    by (simp add: sort_key_id_if_sorted)
  ultimately show ?thesis
    by (simp only: eq) blast
qed

lemma isoDate_jan_1: "isoDate ''2020-01-01'' = Some 1577836800000"
  by (simp add: isoDate_def is_digit_def radix_digit_def digits_val_def days_in_month_def
      days_from_civil_def Let_def)

lemma isoDate_jan_2: "isoDate ''2020-01-02'' = Some 1577923200000"
  by (simp add: isoDate_def is_digit_def radix_digit_def digits_val_def days_in_month_def
      days_from_civil_def Let_def)

theorem sort_stable_idempotent_witness:
  "map (\<lambda>r. r ''Close'')
     (filter (\<lambda>r. newDate isoDate (r ''Date'') = Some 1577836800000)
        (sortDataByDate isoDate ''Date'' dates_example))
     = [Some (Str ''10''), Some (Str ''20'')]"
proof -
  have h: "\<forall>r \<in> set dates_example. newDate isoDate (r ''Date'') \<noteq> None"
    by (simp add: dates_example_def newDate_def isoDate_jan_1 isoDate_jan_2)
  have "filter (\<lambda>r. newDate isoDate (r ''Date'') = Some 1577836800000)
          (sortDataByDate isoDate ''Date'' dates_example)
      = filter (\<lambda>r. newDate isoDate (r ''Date'') = Some 1577836800000) dates_example"
    using sort_stable_idempotent [OF h] by blast
  then show ?thesis
    by (simp add: dates_example_def newDate_def isoDate_jan_1 isoDate_jan_2)
qed

subsection \<open>The columns a stage leaves alone (claim C10)\<close>

text \<open>
  Claim C10, amended.  A stage that returns gives back as many records as it was given, in
  the same order; it sets its own derived columns in every record and leaves the value of
  every other column unchanged.  A column that already bears the name of a derived column
  is overwritten.  The moving average always returns.  A percentage stage throws a
  \<open>TypeError\<close> exactly when, at a row past its edge test (index 1 on for the volume, index
  2 on for the prices), neither of the two cells it reads is the sentinel and one of them
  is not a string; otherwise it returns.
\<close>

theorem stages_frame:
  "(percentagesChangeInVolume data = Inr out1 \<longrightarrow>
      length out1 = length data \<and>
      (\<forall>i < length data. (out1 ! i) ''Daily Change in Volume'' \<noteq> None \<and>
         (\<forall>k. k \<noteq> ''Daily Change in Volume'' \<longrightarrow> (out1 ! i) k = (data ! i) k))) \<and>
   (percentagesChangeInPrices data = Inr out2 \<longrightarrow>
      length out2 = length data \<and>
      (\<forall>i < length data.
         (\<forall>c \<in> set VALUE_CELLS. (out2 ! i) (c @ '' - Daily Percentage Change'') \<noteq> None) \<and>
         (\<forall>k. (\<forall>c \<in> set VALUE_CELLS. k \<noteq> c @ '' - Daily Percentage Change'') \<longrightarrow>
            (out2 ! i) k = (data ! i) k))) \<and>
   (\<exists>out3. movingAverage m data = Inr out3 \<and>
      length out3 = length data \<and>
      (\<forall>i < length data.
         (\<forall>c \<in> set VALUE_CELLS. (out3 ! i) (average_name c m) \<noteq> None) \<and>
         (\<forall>k. (\<forall>c \<in> set VALUE_CELLS. k \<noteq> average_name c m) \<longrightarrow>
            (out3 ! i) k = (data ! i) k))) \<and>
   (if \<exists>i < length data. 0 < i \<and> unreadable ((data ! i) ''Volume'') ((data ! (i - 1)) ''Volume'')
    then percentagesChangeInVolume data = Inl TypeError
    else \<exists>out. percentagesChangeInVolume data = Inr out) \<and>
   (if \<exists>i < length data. 1 < i \<and>
         (\<exists>k \<in> set VALUE_CELLS. unreadable ((data ! i) k) ((data ! (i - 1)) k))
    then percentagesChangeInPrices data = Inl TypeError
    else \<exists>out. percentagesChangeInPrices data = Inr out)"
proof (intro conjI impI)
  assume run: "percentagesChangeInVolume data = Inr out1"
  show "length out1 = length data"
    using volume_stage [OF run] by blast
  show "\<forall>i < length data. (out1 ! i) ''Daily Change in Volume'' \<noteq> None \<and>
         (\<forall>k. k \<noteq> ''Daily Change in Volume'' \<longrightarrow> (out1 ! i) k = (data ! i) k)"
    using volume_stage_frame [OF run] by blast
next
  assume run: "percentagesChangeInPrices data = Inr out2"
  show "length out2 = length data"
    using price_stage [OF run] by blast
  show "\<forall>i < length data.
         (\<forall>c \<in> set VALUE_CELLS. (out2 ! i) (c @ '' - Daily Percentage Change'') \<noteq> None) \<and>
         (\<forall>k. (\<forall>c \<in> set VALUE_CELLS. k \<noteq> c @ '' - Daily Percentage Change'') \<longrightarrow>
            (out2 ! i) k = (data ! i) k)"
    using price_stage_frame [OF run] by blast
next
  obtain out3 where run: "movingAverage m data = Inr out3" and len: "length out3 = length data"
    using average_stage [of m data] by blast
  have "\<forall>i < length data.
         (\<forall>c \<in> set VALUE_CELLS. (out3 ! i) (average_name c m) \<noteq> None) \<and>
         (\<forall>k. (\<forall>c \<in> set VALUE_CELLS. k \<noteq> average_name c m) \<longrightarrow>
            (out3 ! i) k = (data ! i) k)"
    using average_stage_frame [OF run] by simp
  then show "\<exists>out3. movingAverage m data = Inr out3 \<and>
      length out3 = length data \<and>
      (\<forall>i < length data.
         (\<forall>c \<in> set VALUE_CELLS. (out3 ! i) (average_name c m) \<noteq> None) \<and>
         (\<forall>k. (\<forall>c \<in> set VALUE_CELLS. k \<noteq> average_name c m) \<longrightarrow>
            (out3 ! i) k = (data ! i) k))"
    using run len by blast
next
  show "if \<exists>i < length data. 0 < i \<and> unreadable ((data ! i) ''Volume'') ((data ! (i - 1)) ''Volume'')
    then percentagesChangeInVolume data = Inl TypeError
    else \<exists>out. percentagesChangeInVolume data = Inr out"
    by (rule volume_stage_throws)
next
  show "if \<exists>i < length data. 1 < i \<and>
         (\<exists>k \<in> set VALUE_CELLS. unreadable ((data ! i) k) ((data ! (i - 1)) k))
    then percentagesChangeInPrices data = Inl TypeError
    else \<exists>out. percentagesChangeInPrices data = Inr out"
    by (rule price_stage_throws)
qed

lemma rerun_example_run:
  "\<exists>out. percentagesChangeInVolume rerun_example = Inr out"
  by (rule volume_stage_total) (simp add: rerun_example_def percent_change_def)

lemma missing_volume_unreadable:
  "\<exists>i < length missing_volume_example. 0 < i \<and>
     unreadable ((missing_volume_example ! i) ''Volume'')
       ((missing_volume_example ! (i - 1)) ''Volume'')"
proof (intro exI [of _ 1] conjI)
  show "1 < length missing_volume_example" by (simp add: missing_volume_example_def)
  show "(0 :: nat) < 1" by simp
  show "unreadable ((missing_volume_example ! 1) ''Volume'')
       ((missing_volume_example ! (1 - 1)) ''Volume'')"
    by (simp add: missing_volume_example_def unreadable_def is_string_def)
qed

theorem stages_frame_witness:
  "(\<exists>out. percentagesChangeInVolume rerun_example = Inr out \<and> length out = 1 \<and>
     (out ! 0) ''Volume'' = Some (Str ''100'')) \<and>
   percentagesChangeInVolume missing_volume_example = Inl TypeError"
proof (rule conjI)
  obtain out where run: "percentagesChangeInVolume rerun_example = Inr out"
    using rerun_example_run by blast
  have "length out = length rerun_example \<and>
      (\<forall>i < length rerun_example. (out ! i) ''Daily Change in Volume'' \<noteq> None \<and>
         (\<forall>k. k \<noteq> ''Daily Change in Volume'' \<longrightarrow> (out ! i) k = (rerun_example ! i) k))"
    using stages_frame [of rerun_example out, THEN conjunct1, THEN mp, OF run] .
  then have "length out = 1" and "(out ! 0) ''Volume'' = (rerun_example ! 0) ''Volume''"
    by (simp_all add: rerun_example_def)
  then have "length out = 1 \<and> (out ! 0) ''Volume'' = Some (Str ''100'')"
    by (simp add: rerun_example_def)
  with run show "\<exists>out. percentagesChangeInVolume rerun_example = Inr out \<and> length out = 1 \<and>
     (out ! 0) ''Volume'' = Some (Str ''100'')"
    by (intro exI [of _ out] conjI) simp_all
next
  have "if \<exists>i < length missing_volume_example. 0 < i \<and>
          unreadable ((missing_volume_example ! i) ''Volume'')
            ((missing_volume_example ! (i - 1)) ''Volume'')
    then percentagesChangeInVolume missing_volume_example = Inl TypeError
    else \<exists>out. percentagesChangeInVolume missing_volume_example = Inr out"
    using stages_frame [of missing_volume_example, THEN conjunct2, THEN conjunct2,
        THEN conjunct2, THEN conjunct1] .
  then show "percentagesChangeInVolume missing_volume_example = Inl TypeError"
    by (simp only: missing_volume_unreadable if_True)
qed

theorem stage_overwrites_existing_column:
  "\<exists>out. percentagesChangeInVolume rerun_example = Inr out \<and>
     (rerun_example ! 0) ''Daily Change in Volume'' = Some (Str ''5'') \<and>
     (out ! 0) ''Daily Change in Volume'' = Some (Str ''-'')"
proof -
  obtain out where run: "percentagesChangeInVolume rerun_example = Inr out"
    using rerun_example_run by blast
  have "0 < length rerun_example" by (simp add: rerun_example_def)
  then obtain v where
    v: "percent_change (0 \<le> int 0 - 1) ((rerun_example ! 0) ''Volume'')
          ((rerun_example ! (0 - 1)) ''Volume'') = Inr v"
    and row: "out ! 0 = (rerun_example ! 0)(''Daily Change in Volume'' \<mapsto> v)"
    using volume_stage [OF run] by blast
  have "v = Str ''-''"
    using v by (simp add: percent_change_def)
  then have "(out ! 0) ''Daily Change in Volume'' = Some (Str ''-'')"
    by (simp add: row)
  moreover have "(rerun_example ! 0) ''Daily Change in Volume'' = Some (Str ''5'')"
    by (simp add: rerun_example_def)
  ultimately show ?thesis using run by (intro exI [of _ out] conjI)
qed

subsection \<open>The whole pipeline (claim C4)\<close>







end
